theory Spec2Isabelle
  imports Complex_Main "HOL-Library.AList"
begin

section \<open>Data frames\<close>

text \<open>
  The pipeline of \<^verbatim>\<open>gb_baseline/baseline.ipynb\<close> works on pandas data frames. A
  frame is modelled by its ordered column labels and its rows; a row is an association
  list from column label to cell, and a cell that a row does not hold is a missing value
  (NaN). All cells of the credit histories (ids, sequence numbers, categorical codes) and
  all counts are integers. The column labels of a frame are meant to be pairwise
  different, as the columns of a parquet file are.

  The frames that the chunk reader returns are labelled by plain column names (strings).
  The frames built from them are labelled by \<open>label\<close>: either such a plain name, or the
  name \<^verbatim>\<open>f"{prefix}_{level}"\<close> that \<^verbatim>\<open>pd.get_dummies\<close> gives to the indicator
  column of one level of one encoded column, kept structured as \<open>Dummy prefix level\<close>.
\<close>

datatype label = Col string | Dummy string int

abbreviation id_col :: label where
  "id_col \<equiv> Col ''id''"

record 'c frame =
  columns :: "'c list"
  rows :: "('c \<times> int) list list"

text \<open>
  The exceptions of the pipeline. \<open>IOError\<close> stands for an exception raised inside the
  chunk reader, which the aggregator lets through uncaught; it carries the reader's
  message.
\<close>

datatype error =
    AssertionError string
  | ValueError string
  | KeyError
  | IndexError
  | IOError string

subsection \<open>Python and pandas primitives used by the aggregator\<close>

text \<open>\<^verbatim>\<open>xs.remove(x)\<close>: removes the first occurrence, raises ValueError when there is none.\<close>

definition list_remove :: "'c \<Rightarrow> 'c list \<Rightarrow> error + 'c list" where
  "list_remove x xs =
     (if x \<in> set xs then Inr (remove1 x xs)
      else Inl (ValueError ''list.remove(x): x not in list''))"

text \<open>\<^verbatim>\<open>range(0, stop, step)\<close> on non-negative arguments; a zero step raises ValueError.\<close>

definition py_range :: "nat \<Rightarrow> nat \<Rightarrow> error + nat list" where
  "py_range stop step =
     (if step = 0 then Inl (ValueError ''range() arg 3 must not be zero'')
      else Inr (map (\<lambda>k. k * step) [0..<(stop + step - 1) div step]))"

text \<open>The cells of a row under the given labels, in that order; missing cells stay missing.\<close>

definition reindex :: "'c list \<Rightarrow> ('c \<times> int) list \<Rightarrow> ('c \<times> int) list" where
  "reindex cols r = List.map_filter (\<lambda>c. map_option (Pair c) (map_of r c)) cols"

text \<open>\<^verbatim>\<open>frame[cols]\<close>: column selection by a list of labels, KeyError on an unknown label.\<close>

definition getitem :: "'c frame \<Rightarrow> 'c list \<Rightarrow> error + 'c frame" where
  "getitem f cols =
     (if set cols \<subseteq> set (columns f)
      then Inr \<lparr>columns = cols, rows = map (reindex cols) (rows f)\<rparr>
      else Inl KeyError)"

text \<open>\<^verbatim>\<open>frame[col] = v\<close> with a scalar: overwrites the column, or appends it as the last one.\<close>

definition setitem :: "'c \<Rightarrow> int \<Rightarrow> 'c frame \<Rightarrow> 'c frame" where
  "setitem col v f =
     \<lparr>columns = (if col \<in> set (columns f) then columns f else columns f @ [col]),
      rows = map (AList.update col v) (rows f)\<rparr>"

text \<open>\<^verbatim>\<open>frame.drop(columns=cols)\<close>: KeyError when a label is not a column of the frame.\<close>

definition drop_columns :: "'c list \<Rightarrow> 'c frame \<Rightarrow> error + 'c frame" where
  "drop_columns cols f =
     (if set cols \<subseteq> set (columns f)
      then Inr \<lparr>columns = filter (\<lambda>c. c \<notin> set cols) (columns f),
                rows = map (filter (\<lambda>(c, v). c \<notin> set cols)) (rows f)\<rparr>
      else Inl KeyError)"

text \<open>
  The levels of a column: its distinct non-missing values in ascending order (the
  categories that \<^verbatim>\<open>get_dummies\<close> factorizes the column into).
\<close>

definition levels :: "('c \<times> int) list list \<Rightarrow> 'c \<Rightarrow> int list" where
  "levels rs c = sort (remdups (List.map_filter (\<lambda>r. map_of r c) rs))"

text \<open>
  \<^verbatim>\<open>pd.get_dummies(data, columns=cols)\<close> where \<open>cols\<close> are all columns of \<open>data\<close>: for
  each column in order, one indicator column per level, named by prefix and level; a
  cell is 1 when the row has that level in that column and 0 otherwise (a missing value
  sets no indicator). The indicator frames of the columns are concatenated, and with no
  column to encode that concatenation raises ValueError.
\<close>

definition get_dummies :: "string frame \<Rightarrow> string list \<Rightarrow> error + label frame" where
  "get_dummies data cols =
     (if cols = [] then Inl (ValueError ''No objects to concatenate'')
      else Inr
        \<lparr>columns = concat (map (\<lambda>c. map (Dummy c) (levels (rows data) c)) cols),
         rows = map (\<lambda>r. concat (map (\<lambda>c. map (\<lambda>v. (Dummy c v, if map_of r c = Some v then 1 else 0))
                                               (levels (rows data) c)) cols))
                    (rows data)\<rparr>)"

text \<open>A frame of plain column names, seen as a frame of labels.\<close>

definition plain :: "string frame \<Rightarrow> label frame" where
  "plain f = \<lparr>columns = map Col (columns f), rows = map (map (\<lambda>(c, v). (Col c, v))) (rows f)\<rparr>"

text \<open>\<^verbatim>\<open>pd.concat([a, b], axis=1)\<close> of two frames over the same rows.\<close>

definition concat_axis1 :: "'c frame \<Rightarrow> 'c frame \<Rightarrow> 'c frame" where
  "concat_axis1 a b = \<lparr>columns = columns a @ columns b, rows = map2 (@) (rows a) (rows b)\<rparr>"

text \<open>
  \<^verbatim>\<open>frame.groupby(key)[cols].sum().reset_index(drop=False)\<close>: one row per distinct
  non-missing key, in ascending key order; the key column comes first, then for each
  selected column the sum of its non-missing cells over the rows of the group.
\<close>

definition group_keys :: "'c \<Rightarrow> ('c \<times> int) list list \<Rightarrow> int list" where
  "group_keys key rs = sort (remdups (List.map_filter (\<lambda>r. map_of r key) rs))"

definition groupby_sum :: "'c \<Rightarrow> 'c list \<Rightarrow> 'c frame \<Rightarrow> error + 'c frame" where
  "groupby_sum key cols f =
     (if key \<notin> set (columns f) \<or> \<not> set cols \<subseteq> set (columns f) then Inl KeyError
      else Inr \<lparr>columns = key # cols,
                rows = map (\<lambda>k. (key, k) #
                              map (\<lambda>c. (c, sum_list (List.map_filter (\<lambda>r. map_of r c)
                                               (filter (\<lambda>r. map_of r key = Some k) (rows f)))))
                                  cols)
                           (group_keys key (rows f))\<rparr>)"

text \<open>
  The union of column lists in order of first appearance, as \<^verbatim>\<open>pd.concat\<close> builds the
  columns of the result (outer join, \<^verbatim>\<open>sort=False\<close>).
\<close>

fun append_new :: "'c list \<Rightarrow> 'c list \<Rightarrow> 'c list" where
  "append_new acc [] = acc"
| "append_new acc (c # cs) =
     (if c \<in> set acc then append_new acc cs else append_new (acc @ [c]) cs)"

text \<open>
  \<^verbatim>\<open>pd.concat(frames)\<close> along the rows: ValueError on an empty list; the rows follow
  each other in order, and a row has no cell in a column that its frame did not have.
\<close>

definition pd_concat :: "'c frame list \<Rightarrow> error + 'c frame" where
  "pd_concat fs =
     (if fs = [] then Inl (ValueError ''No objects to concatenate'')
      else let cols = foldl append_new [] (map columns fs)
           in Inr \<lparr>columns = cols, rows = map (reindex cols) (concat (map rows fs))\<rparr>)"

text \<open>\<^verbatim>\<open>frame.fillna(v, inplace=True)\<close>: every missing cell of every column becomes \<open>v\<close>.\<close>

definition fillna :: "int \<Rightarrow> 'c frame \<Rightarrow> 'c frame" where
  "fillna v f =
     \<lparr>columns = columns f,
      rows = map (\<lambda>r. map (\<lambda>c. (c, case map_of r c of None \<Rightarrow> v | Some x \<Rightarrow> x)) (columns f))
                 (rows f)\<rparr>"

section \<open>CountAggregator\<close>

text \<open>
  The only field of a \<^verbatim>\<open>CountAggregator\<close> is \<^verbatim>\<open>encoded_features\<close>, which
  \<^verbatim>\<open>__init__\<close> sets to \<^verbatim>\<open>None\<close>.
\<close>

record CountAggregator =
  encoded_features :: "label list option"

definition init :: CountAggregator where
  "init = \<lparr>encoded_features = None\<rparr>"

text \<open>
  \<^verbatim>\<open>__extract_count_aggregations\<close>: one-hot encoding of every column but
  \<^verbatim>\<open>id\<close> and \<^verbatim>\<open>rn\<close>, then the sum of the indicator columns per id. The
  \<^verbatim>\<open>mode\<close> argument is not used by the body.
\<close>

definition extract_count_aggregations :: "string frame \<Rightarrow> error + label frame" where
  "extract_count_aggregations data_frame =
     (case list_remove ''id'' (columns data_frame) of
        Inl e \<Rightarrow> Inl e
      | Inr without_id \<Rightarrow>
     (case list_remove ''rn'' without_id of
        Inl e \<Rightarrow> Inl e
      | Inr feature_columns \<Rightarrow>
     (case getitem data_frame feature_columns of
        Inl e \<Rightarrow> Inl e
      | Inr selected \<Rightarrow>
     (case get_dummies selected feature_columns of
        Inl e \<Rightarrow> Inl e
      | Inr dummies \<Rightarrow>
        let dummy_features = columns dummies
        in (case drop_columns (map Col feature_columns)
                   (concat_axis1 (plain data_frame) dummies) of
              Inl e \<Rightarrow> Inl e
            | Inr ohe_features \<Rightarrow> groupby_sum id_col dummy_features ohe_features)))))"

subsection \<open>The chunk reader and the sink\<close>

text \<open>
  \<^verbatim>\<open>utils.read_parquet_dataset_from_local\<close> is imported by the notebook and is not
  part of it. The aggregator takes it as a parameter: a reader maps a path, a first
  partition and a number of partitions to a frame, or fails with a message.
\<close>

type_synonym reader = "string \<Rightarrow> nat \<Rightarrow> nat \<Rightarrow> string + string frame"

text \<open>
  What a call does to the outside world is kept as a trace: each call of the reader, and
  each artifact \<^verbatim>\<open>processed_chunk_{step}.pq\<close> written under \<^verbatim>\<open>save_to_path\<close>.
\<close>

datatype event =
    ReadParts string nat nat
  | ToParquet string nat "label frame"

text \<open>
  \<^verbatim>\<open>if save_to_path:\<close> is Python truthiness: neither \<^verbatim>\<open>None\<close> nor the empty string
  writes anything.
\<close>

definition save_events :: "string option \<Rightarrow> nat \<Rightarrow> label frame \<Rightarrow> event list" where
  "save_events save_to_path step features =
     (case save_to_path of
        None \<Rightarrow> []
      | Some p \<Rightarrow> if p = [] then [] else [ToParquet p step features])"

text \<open>
  The body of the \<^verbatim>\<open>for step in range(...)\<close> loop of \<^verbatim>\<open>__transform_data\<close>: read
  a batch, aggregate it, write it when a sink is given, append it to
  \<^verbatim>\<open>preprocessed_frames\<close>. An exception leaves the loop with the trace so far.
\<close>

fun preprocess_steps ::
  "reader \<Rightarrow> string \<Rightarrow> nat \<Rightarrow> string option \<Rightarrow> nat list \<Rightarrow> label frame list
     \<Rightarrow> event list \<Rightarrow> (error + label frame list) \<times> event list" where
  "preprocess_steps read path n save_to_path [] preprocessed_frames trace =
     (Inr preprocessed_frames, trace)"
| "preprocess_steps read path n save_to_path (step # steps) preprocessed_frames trace =
     (case read path step n of
        Inl msg \<Rightarrow> (Inl (IOError msg), trace @ [ReadParts path step n])
      | Inr data_frame \<Rightarrow>
          (case extract_count_aggregations data_frame of
             Inl e \<Rightarrow> (Inl e, trace @ [ReadParts path step n])
           | Inr features \<Rightarrow>
               preprocess_steps read path n save_to_path steps
                 (preprocessed_frames @ [features])
                 (trace @ [ReadParts path step n] @ save_events save_to_path step features)))"

text \<open>
  The loop \<^verbatim>\<open>for col in self.encoded_features: if not col in dummy_features:
  features[col] = np.uint8(0)\<close>.
\<close>

definition add_missing_columns ::
  "label list \<Rightarrow> label list \<Rightarrow> label frame \<Rightarrow> label frame" where
  "add_missing_columns encoded dummy_features features =
     foldl (\<lambda>f col. if col \<notin> set dummy_features then setitem col 0 f else f) features encoded"

text \<open>
  \<^verbatim>\<open>__transform_data\<close>. The result is the returned frame or the exception raised,
  together with the aggregator and the trace as the call leaves them. The two partition
  counts are natural numbers.
\<close>

definition transform_data ::
  "reader \<Rightarrow> CountAggregator \<Rightarrow> string \<Rightarrow> nat \<Rightarrow> nat \<Rightarrow> string \<Rightarrow> string option \<Rightarrow> event list
     \<Rightarrow> (error + label frame) \<times> CountAggregator \<times> event list" where
  "transform_data read self path_to_dataset num_parts_to_preprocess_at_once num_parts_total
       mode save_to_path trace =
     (if mode \<notin> {''fit_transform'', ''transform''}
      then (Inl (AssertionError ''Unrecognized mode''), self, trace)
      else
     (case py_range num_parts_total num_parts_to_preprocess_at_once of
        Inl e \<Rightarrow> (Inl e, self, trace)
      | Inr steps \<Rightarrow>
     (case preprocess_steps read path_to_dataset num_parts_to_preprocess_at_once
             save_to_path steps [] trace of
        (Inl e, trace') \<Rightarrow> (Inl e, self, trace')
      | (Inr preprocessed_frames, trace') \<Rightarrow>
     (case pd_concat preprocessed_frames of
        Inl e \<Rightarrow> (Inl e, self, trace')
      | Inr concatenated \<Rightarrow>
        let features = fillna 0 concatenated in
     (case list_remove id_col (columns features) of
        Inl e \<Rightarrow> (Inl e, self, trace')
      | Inr dummy_features \<Rightarrow>
        if mode = ''fit_transform'' then
          let self' = self\<lparr>encoded_features := Some dummy_features\<rparr>
          in (case getitem features (id_col # dummy_features) of
                Inl e \<Rightarrow> (Inl e, self', trace')
              | Inr result \<Rightarrow> (Inr result, self', trace'))
        else
          (case encoded_features self of
             None \<Rightarrow> (Inl (AssertionError ''Transformer not fitted''), self, trace')
           | Some encoded \<Rightarrow>
               (case getitem (add_missing_columns encoded dummy_features features)
                       (id_col # encoded) of
                  Inl e \<Rightarrow> (Inl e, self, trace')
                | Inr result \<Rightarrow> (Inr result, self, trace'))))))))"

definition fit_transform ::
  "reader \<Rightarrow> CountAggregator \<Rightarrow> string \<Rightarrow> nat \<Rightarrow> nat \<Rightarrow> string option \<Rightarrow> event list
     \<Rightarrow> (error + label frame) \<times> CountAggregator \<times> event list" where
  "fit_transform read self path_to_dataset num_parts_to_preprocess_at_once num_parts_total
       save_to_path trace =
     transform_data read self path_to_dataset num_parts_to_preprocess_at_once num_parts_total
       ''fit_transform'' save_to_path trace"

definition transform ::
  "reader \<Rightarrow> CountAggregator \<Rightarrow> string \<Rightarrow> nat \<Rightarrow> nat \<Rightarrow> string option \<Rightarrow> event list
     \<Rightarrow> (error + label frame) \<times> CountAggregator \<times> event list" where
  "transform read self path_to_dataset num_parts_to_preprocess_at_once num_parts_total
       save_to_path trace =
     transform_data read self path_to_dataset num_parts_to_preprocess_at_once num_parts_total
       ''transform'' save_to_path trace"

text \<open>
  Modelled from the spec: the storage behind the chunk reader, a directory of ordered
  partitions with a fixed column layout, each partition holding history records.
\<close>

record dataset =
  ds_columns :: "string list"
  partitions :: "(string \<times> int) list list list"

text \<open>
  Modelled from the spec: the chunk reader \<^verbatim>\<open>read_parquet_dataset_from_local\<close> of the
  module \<^verbatim>\<open>utils\<close>. Given a storage path, a starting partition offset and a count of
  partitions, it returns one frame formed by the rows of those partitions, in order
  within and across partitions; it fails when the path is missing.
\<close>

definition read_parquet_dataset_from_local :: "(string \<rightharpoonup> dataset) \<Rightarrow> reader" where
  "read_parquet_dataset_from_local storage path start_from num_parts_to_read =
     (case storage path of
        None \<Rightarrow> Inl path
      | Some ds \<Rightarrow>
          Inr \<lparr>columns = ds_columns ds,
               rows = concat (take num_parts_to_read (drop start_from (partitions ds)))\<rparr>)"

section \<open>Cross-validated training and scoring\<close>

text \<open>
  The training cell of the notebook runs \<^verbatim>\<open>KFold(n_splits, shuffle=True,
  random_state)\<close> of scikit-learn over the rows of \<^verbatim>\<open>train_data_target\<close>, and the
  scoring cell averages the models over \<^verbatim>\<open>test_data\<close>. Rows are kept abstract (a type
  \<open>'x\<close>), and so are the models (\<open>'m\<close>): LightGBM enters as two parameters, \<open>fit\<close>
  (training with its early stopping on the validation rows, which may raise) and
  \<open>predict\<close> (the positive-class probability \<^verbatim>\<open>predict_proba(...)[:, 1]\<close> of one row).
  Probabilities are real numbers: the rounding of float64 arithmetic is not modelled.
\<close>

subsection \<open>KFold\<close>

text \<open>
  \<^verbatim>\<open>KFold.split\<close> as scikit-learn implements it: the first \<open>n mod k\<close> folds have
  \<open>n div k + 1\<close> samples and the others \<open>n div k\<close>; the test folds are consecutive
  slices of the shuffled indices; a fold yields the indices outside its slice and the
  indices inside it, both in ascending order. The shuffled indices (what the seeded
  generator makes of \<^verbatim>\<open>arange(n)\<close>) are a parameter. Fewer than 2 splits, or more
  splits than samples, raise ValueError.
\<close>

definition fold_sizes :: "nat \<Rightarrow> nat \<Rightarrow> nat list" where
  "fold_sizes n_splits n_samples =
     map (\<lambda>i. n_samples div n_splits + (if i < n_samples mod n_splits then 1 else 0)) [0..<n_splits]"

fun slices :: "nat list \<Rightarrow> nat list \<Rightarrow> nat list list" where
  "slices indices [] = []"
| "slices indices (fold_size # sizes) = take fold_size indices # slices (drop fold_size indices) sizes"

definition kfold_split :: "nat \<Rightarrow> nat list \<Rightarrow> nat \<Rightarrow> error + (nat list \<times> nat list) list" where
  "kfold_split n_splits shuffled n_samples =
     (if n_splits \<le> 1 then Inl (ValueError ''k-fold cross-validation requires at least one train/test split'')
      else if n_splits > n_samples
        then Inl (ValueError ''Cannot have number of splits greater than the number of samples'')
      else Inr (map (\<lambda>test. (filter (\<lambda>i. i \<notin> set test) [0..<n_samples],
                               filter (\<lambda>i. i \<in> set test) [0..<n_samples]))
                    (slices shuffled (fold_sizes n_splits n_samples))))"

subsection \<open>numpy and pandas indexing with an index array\<close>

text \<open>\<^verbatim>\<open>frame.iloc[idx]\<close> and \<^verbatim>\<open>a[idx]\<close>: the entries at the given positions, in that order.\<close>

definition take_positions :: "'a list \<Rightarrow> nat list \<Rightarrow> 'a list" where
  "take_positions xs idx = map (\<lambda>i. xs ! i) idx"

text \<open>\<^verbatim>\<open>a[idx] = values\<close>: the assignments are made in the order of the index array.\<close>

definition assign_positions :: "'a list \<Rightarrow> nat list \<Rightarrow> 'a list \<Rightarrow> 'a list" where
  "assign_positions a idx values = foldl (\<lambda>a (i, v). a[i := v]) a (zip idx values)"

subsection \<open>The training loop\<close>

text \<open>
  One iteration of the loop over the folds. The state is \<^verbatim>\<open>oof\<close>, \<^verbatim>\<open>train_preds\<close>
  and \<^verbatim>\<open>models\<close>. A position outside the arrays raises IndexError, as numpy and
  pandas do; \<^verbatim>\<open>train_preds[train_idx] += v\<close> reads the entries, adds and assigns them
  back.
\<close>

definition fold_step ::
  "('x list \<Rightarrow> 'x list \<Rightarrow> error + 'm) \<Rightarrow> ('m \<Rightarrow> 'x \<Rightarrow> real) \<Rightarrow> 'x list \<Rightarrow> nat
     \<Rightarrow> nat list \<times> nat list \<Rightarrow> real list \<times> real list \<times> 'm list
     \<Rightarrow> error + real list \<times> real list \<times> 'm list" where
  "fold_step fit predict train_data_target n_splits this_fold state =
     (case (this_fold, state) of ((train_idx, val_idx), (oof, train_preds, models)) \<Rightarrow>
        if \<not> list_all (\<lambda>i. i < length train_data_target) (train_idx @ val_idx) then Inl IndexError
        else
          let train = take_positions train_data_target train_idx;
              val = take_positions train_data_target val_idx
          in (case fit train val of
                Inl e \<Rightarrow> Inl e
              | Inr lgb_model \<Rightarrow>
                  Inr (assign_positions oof val_idx (map (predict lgb_model) val),
                       assign_positions train_preds train_idx
                         (map2 (+) (take_positions train_preds train_idx)
                            (map (\<lambda>x. predict lgb_model x / of_int (int n_splits - 1)) train)),
                       models @ [lgb_model])))"

fun cv_loop ::
  "('x list \<Rightarrow> 'x list \<Rightarrow> error + 'm) \<Rightarrow> ('m \<Rightarrow> 'x \<Rightarrow> real) \<Rightarrow> 'x list \<Rightarrow> nat
     \<Rightarrow> (nat list \<times> nat list) list \<Rightarrow> real list \<times> real list \<times> 'm list
     \<Rightarrow> error + real list \<times> real list \<times> 'm list" where
  "cv_loop fit predict train_data_target n_splits [] state = Inr state"
| "cv_loop fit predict train_data_target n_splits (this_fold # folds) state =
     (case fold_step fit predict train_data_target n_splits this_fold state of
        Inl e \<Rightarrow> Inl e
      | Inr state' \<Rightarrow> cv_loop fit predict train_data_target n_splits folds state')"

text \<open>
  The training cell: \<^verbatim>\<open>oof\<close> and \<^verbatim>\<open>train_preds\<close> start as zeros, \<^verbatim>\<open>models\<close> as
  the empty list.
\<close>

definition cross_validate ::
  "('x list \<Rightarrow> 'x list \<Rightarrow> error + 'm) \<Rightarrow> ('m \<Rightarrow> 'x \<Rightarrow> real) \<Rightarrow> 'x list \<Rightarrow> nat \<Rightarrow> nat list
     \<Rightarrow> error + real list \<times> real list \<times> 'm list" where
  "cross_validate fit predict train_data_target n_splits shuffled =
     (case kfold_split n_splits shuffled (length train_data_target) of
        Inl e \<Rightarrow> Inl e
      | Inr folds \<Rightarrow>
          cv_loop fit predict train_data_target n_splits folds
            (replicate (length train_data_target) 0, replicate (length train_data_target) 0, []))"

subsection \<open>Scoring\<close>

text \<open>
  The submission cell: \<^verbatim>\<open>score\<close> starts as zeros, and every model adds its
  probabilities divided by the number of models.
\<close>

definition score_models :: "('m \<Rightarrow> 'x \<Rightarrow> real) \<Rightarrow> 'm list \<Rightarrow> 'x list \<Rightarrow> real list" where
  "score_models predict models test_data =
     foldl (\<lambda>score model.
              map2 (+) score (map (\<lambda>x. predict model x / of_nat (length models)) test_data))
       (replicate (length test_data) 0) models"

section \<open>Vocabulary of the properties\<close>

text \<open>
  The definitions of this section do not come from the notebook: they name what the
  properties below talk about.
\<close>

subsection \<open>Batches of a call\<close>

text \<open>
  The frames that the reader hands to one call of \<^verbatim>\<open>__transform_data\<close>, one per step
  of the loop, and the aggregated features of these batches.
\<close>

definition batches :: "reader \<Rightarrow> string \<Rightarrow> nat \<Rightarrow> nat \<Rightarrow> string frame list" where
  "batches read path n m =
     (case py_range m n of
        Inl e \<Rightarrow> []
      | Inr steps \<Rightarrow>
          List.map_filter (\<lambda>step. case read path step n of Inl e \<Rightarrow> None | Inr df \<Rightarrow> Some df) steps)"

definition batch_features :: "reader \<Rightarrow> string \<Rightarrow> nat \<Rightarrow> nat \<Rightarrow> label frame list" where
  "batch_features read path n m =
     List.map_filter (\<lambda>df. case extract_count_aggregations df of Inl e \<Rightarrow> None | Inr f \<Rightarrow> Some f)
       (batches read path n m)"

text \<open>
  Every step of the loop is read and aggregated, and there is at least one step.
\<close>

definition all_batches_aggregated :: "reader \<Rightarrow> string \<Rightarrow> nat \<Rightarrow> nat \<Rightarrow> bool" where
  "all_batches_aggregated read path n m =
     (case py_range m n of
        Inl e \<Rightarrow> False
      | Inr steps \<Rightarrow>
          steps \<noteq> [] \<and>
          list_all (\<lambda>step. case read path step n of
                             Inl e \<Rightarrow> False
                           | Inr df \<Rightarrow> (case extract_count_aggregations df of
                                          Inl e \<Rightarrow> False | Inr f \<Rightarrow> True)) steps)"

text \<open>
  The trace of a loop that completes: per step the read, then the artifact when a sink
  is given.
\<close>

definition trace_of ::
  "string \<Rightarrow> nat \<Rightarrow> string option \<Rightarrow> nat list \<Rightarrow> label frame list \<Rightarrow> event list" where
  "trace_of path n save_to_path steps fs =
     concat (map2 (\<lambda>step f. ReadParts path step n # save_events save_to_path step f) steps fs)"

subsection \<open>Entities and their history records\<close>

text \<open>
  The ids of a batch, each once and in ascending order, and the number of history
  records of entity \<open>i\<close> whose categorical column \<open>c\<close> takes the value \<open>v\<close>.
\<close>

definition entity_ids :: "string frame \<Rightarrow> int list" where
  "entity_ids df = group_keys ''id'' (rows df)"

definition record_count :: "(string \<times> int) list list \<Rightarrow> int \<Rightarrow> string \<Rightarrow> int \<Rightarrow> nat" where
  "record_count rs i c v =
     length (filter (\<lambda>r. map_of r ''id'' = Some i \<and> map_of r c = Some v) rs)"



text \<open>An aggregator is fitted when it is what a call of \<^verbatim>\<open>fit_transform\<close> that returned left.\<close>

definition fitted :: "CountAggregator \<Rightarrow> bool" where
  "fitted self \<longleftrightarrow>
     (\<exists>read self0 path n m sink tr T tr'.
        fit_transform read self0 path n m sink tr = (Inr T, self, tr'))"

subsection \<open>The result of one batch, in closed form\<close>

text \<open>
  The categorical columns of a layout (all columns but \<^verbatim>\<open>id\<close> and \<^verbatim>\<open>rn\<close>), the
  indicator columns that a record list gives rise to under a layout, and those of one
  batch, as labels and as pairs of column and level.
\<close>

definition feature_columns_of :: "string list \<Rightarrow> string list" where
  "feature_columns_of cols = remove1 ''rn'' (remove1 ''id'' cols)"


definition dummy_columns :: "string frame \<Rightarrow> label list" where
  "dummy_columns df =
     concat (map (\<lambda>c. map (Dummy c) (levels (rows df) c)) (feature_columns_of (columns df)))"

definition dummy_pairs :: "string frame \<Rightarrow> (string \<times> int) list" where
  "dummy_pairs df =
     concat (map (\<lambda>c. map (Pair c) (levels (rows df) c)) (feature_columns_of (columns df)))"

text \<open>
  The one-hot row of a history record (its plain cells followed by its indicators, the
  categorical cells dropped), and the aggregated row of an entity of a batch: its id,
  then under each indicator column the number of its records with that level.
\<close>

definition ohe_row :: "string frame \<Rightarrow> (string \<times> int) list \<Rightarrow> (label \<times> int) list" where
  "ohe_row df r =
     filter (\<lambda>(c, v). c \<notin> set (map Col (feature_columns_of (columns df))))
       (map (\<lambda>(c, v). (Col c, v)) r @
        concat (map (\<lambda>c. map (\<lambda>v. (Dummy c v, if map_of r c = Some v then 1 else 0))
                              (levels (rows df) c)) (feature_columns_of (columns df))))"

definition count_row :: "string frame \<Rightarrow> int \<Rightarrow> (label \<times> int) list" where
  "count_row df k =
     (id_col, k) # map (\<lambda>(c, v). (Dummy c v, int (record_count (rows df) k c v))) (dummy_pairs df)"

text \<open>
  The cell of a returned row under label \<open>c\<close>, from the aggregated row \<open>r\<close> of its batch,
  the labels \<open>ds\<close> seen in this call and the schema \<open>enc\<close> that selects the columns.
\<close>

definition final_cell :: "label list \<Rightarrow> label list \<Rightarrow> (label \<times> int) list \<Rightarrow> label \<Rightarrow> int option" where
  "final_cell enc ds r c =
     (if c \<in> set (id_col # enc)
      then Some (if c \<in> set enc \<and> c \<notin> set ds then 0
                 else case map_of r c of None \<Rightarrow> 0 | Some v \<Rightarrow> v)
      else None)"

text \<open>What the loop over the schema makes of one row: a zero cell under each added column.\<close>

definition add_zero :: "label list \<Rightarrow> label list \<Rightarrow> (label \<times> int) list \<Rightarrow> (label \<times> int) list" where
  "add_zero enc ds r = foldl (\<lambda>r col. if col \<notin> set ds then AList.update col 0 r else r) r enc"

subsection \<open>Cross-validation\<close>

text \<open>
  What one fold, with its model, adds to the training prediction of position \<open>e\<close>.
\<close>

definition contribution ::
  "('m \<Rightarrow> 'x \<Rightarrow> real) \<Rightarrow> 'x list \<Rightarrow> nat \<Rightarrow> nat \<Rightarrow> (nat list \<times> nat list) \<times> 'm \<Rightarrow> real" where
  "contribution predict X k e =
     (\<lambda>(fd, mdl). if e \<in> set (fst fd) then predict mdl (X ! e) / of_int (int k - 1) else 0)"

subsection \<open>A toy dataset\<close>

text \<open>
  Two categorical columns \<open>a\<close> and \<open>b\<close>. The training data has two partitions and three
  entities, and both columns take the values 0 and 1 there. The test data brings the
  unseen value 2 of \<open>a\<close> and lacks the values 1 of \<open>a\<close> and 0 of \<open>b\<close>.
\<close>

definition history_record :: "int \<Rightarrow> int \<Rightarrow> int \<Rightarrow> int \<Rightarrow> (string \<times> int) list" where
  "history_record i n a b = [(''id'', i), (''rn'', n), (''a'', a), (''b'', b)]"

definition toy_train :: dataset where
  "toy_train =
     \<lparr>ds_columns = [''id'', ''rn'', ''a'', ''b''],
      partitions = [[history_record 1 1 0 0, history_record 1 2 1 0, history_record 2 1 0 1],
                    [history_record 3 1 1 1, history_record 3 2 1 1, history_record 3 3 0 0]]\<rparr>"

definition toy_test :: dataset where
  "toy_test =
     \<lparr>ds_columns = [''id'', ''rn'', ''a'', ''b''],
      partitions = [[history_record 7 1 0 1, history_record 7 2 2 1],
                    [history_record 8 1 2 1]]\<rparr>"

definition toy_read :: reader where
  "toy_read = read_parquet_dataset_from_local [''train'' \<mapsto> toy_train, ''test'' \<mapsto> toy_test]"

definition toy_schema :: "label list" where
  "toy_schema = [Dummy ''a'' 0, Dummy ''a'' 1, Dummy ''b'' 0, Dummy ''b'' 1]"

definition toy_fitted :: CountAggregator where
  "toy_fitted = \<lparr>encoded_features = Some toy_schema\<rparr>"

definition toy_train_features :: "label frame" where
  "toy_train_features =
     \<lparr>columns = id_col # toy_schema,
      rows = [[(id_col, 1), (Dummy ''a'' 0, 1), (Dummy ''a'' 1, 1), (Dummy ''b'' 0, 2), (Dummy ''b'' 1, 0)],
              [(id_col, 2), (Dummy ''a'' 0, 1), (Dummy ''a'' 1, 0), (Dummy ''b'' 0, 0), (Dummy ''b'' 1, 1)],
              [(id_col, 3), (Dummy ''a'' 0, 1), (Dummy ''a'' 1, 2), (Dummy ''b'' 0, 1), (Dummy ''b'' 1, 2)]]\<rparr>"

definition toy_test_features :: "label frame" where
  "toy_test_features =
     \<lparr>columns = id_col # toy_schema,
      rows = [[(id_col, 7), (Dummy ''a'' 0, 1), (Dummy ''a'' 1, 0), (Dummy ''b'' 0, 0), (Dummy ''b'' 1, 2)],
              [(id_col, 8), (Dummy ''a'' 0, 0), (Dummy ''a'' 1, 0), (Dummy ''b'' 0, 0), (Dummy ''b'' 1, 1)]]\<rparr>"

text \<open>
  A toy run of the training loop: three rows, three folds, the shuffled indices 1, 2, 0;
  a model is the sum of its training rows.
\<close>

definition toy_fit :: "nat list \<Rightarrow> nat list \<Rightarrow> error + nat" where
  "toy_fit train val = Inr (sum_list train)"

definition toy_predict :: "nat \<Rightarrow> nat \<Rightarrow> real" where
  "toy_predict model x = of_nat (10 * model + x) / 100"


section \<open>Auxiliary facts about the aggregator\<close>

lemma map_of_reindex: "map_of (reindex cols r) c = (if c \<in> set cols then map_of r c else None)"
  by (induction cols) (auto simp: reindex_def List.map_filter_simps split: option.splits)

lemma map_of_tabulate: "map_of (map (\<lambda>c. (c, g c)) cols) c = (if c \<in> set cols then Some (g c) else None)"
  by (induction cols) auto

lemma map_of_filter_key: "map_of (filter (\<lambda>(c, v). Q c) al) k = (if Q k then map_of al k else None)"
  by (induction al) auto

lemma map_of_plain_Col: "map_of (map (\<lambda>(c, v). (Col c, v)) r) (Col k) = map_of r k"
  by (induction r) auto

lemma map_of_plain_Dummy: "map_of (map (\<lambda>(c, v). (Col c, v)) r) (Dummy c v) = None"
  by (induction r) auto

lemma map2_same: "map2 h (map f xs) (map g xs) = map (\<lambda>x. h (f x) (g x)) xs"
  by (induction xs) auto

lemma set_append_new: "set (append_new acc cs) = set acc \<union> set cs"
  by (induction acc cs rule: append_new.induct) auto

lemma distinct_append_new: "distinct acc \<Longrightarrow> distinct (append_new acc cs)"
  by (induction acc cs rule: append_new.induct) auto

lemma append_new_prefix: "\<exists>ys. append_new acc cs = acc @ ys"
  by (induction acc cs rule: append_new.induct) auto

lemma set_foldl_append_new: "set (foldl append_new acc css) = set acc \<union> \<Union> (set ` set css)"
  by (induction css arbitrary: acc) (auto simp: set_append_new)

lemma distinct_foldl_append_new: "distinct acc \<Longrightarrow> distinct (foldl append_new acc css)"
  by (induction css arbitrary: acc) (auto simp: distinct_append_new)

lemma foldl_append_new_prefix: "\<exists>ys. foldl append_new acc css = acc @ ys"
proof (induction css arbitrary: acc)
  case Nil show ?case by simp
next
  case (Cons cs css)
  obtain ys where "append_new acc cs = acc @ ys" using append_new_prefix by blast
  moreover obtain zs where "foldl append_new (append_new acc cs) css = append_new acc cs @ zs"
    using Cons by blast
  ultimately show ?case by simp
qed

lemma levels_reindex: "c \<in> set cols \<Longrightarrow> levels (map (reindex cols) rs) c = levels rs c"
proof -
  assume "c \<in> set cols"
  then have "List.map_filter (\<lambda>r. map_of r c) (map (reindex cols) rs) = List.map_filter (\<lambda>r. map_of r c) rs"
    by (induction rs) (auto simp: map_of_reindex split: option.splits)
  then show ?thesis by (simp add: levels_def)
qed

lemma map_of_dummy_row:
  "map_of (concat (map (\<lambda>c. map (\<lambda>v. (Dummy c v, g c v)) (L c)) cols)) (Dummy c v)
     = (if c \<in> set cols \<and> v \<in> set (L c) then Some (g c v) else None)"
proof (induction cols)
  case Nil show ?case by simp
next
  case (Cons a cols)
  have "map_of (map (\<lambda>v. (Dummy a v, g a v)) xs) (Dummy c v) = (if c = a \<and> v \<in> set xs then Some (g a v) else None)" for xs
    by (induction xs) auto
  then have *: "map_of (map (\<lambda>v. (Dummy a v, g a v)) (L a)) (Dummy c v) = (if c = a \<and> v \<in> set (L a) then Some (g a v) else None)" .
  show ?case using Cons * by (auto simp: map_add_def split: option.splits)
qed

lemma extract_unfold:
  assumes "extract_count_aggregations df = Inr F"
  shows "''id'' \<in> set (columns df)" "''rn'' \<in> set (remove1 ''id'' (columns df))"
    "''id'' \<notin> set (feature_columns_of (columns df))"
    "columns F = id_col # dummy_columns df"
    "rows F = map (\<lambda>k. (id_col, k) #
                 map (\<lambda>c. (c, sum_list (List.map_filter (\<lambda>r. map_of r c)
                          (filter (\<lambda>r. map_of r id_col = Some k) (map (ohe_row df) (rows df))))))
                     (dummy_columns df))
             (group_keys id_col (map (ohe_row df) (rows df)))"
proof -
  let ?cols = "columns df"
  let ?fc = "feature_columns_of ?cols"
  show 1: "''id'' \<in> set ?cols" and 2: "''rn'' \<in> set (remove1 ''id'' ?cols)"
    using assms by (auto simp: extract_count_aggregations_def list_remove_def split: if_splits)
  have sub: "set ?fc \<subseteq> set ?cols"
    unfolding feature_columns_of_def by (meson set_remove1_subset subset_trans)
  define sel where "sel = \<lparr>columns = ?fc, rows = map (reindex ?fc) (rows df)\<rparr>"
  have r1: "list_remove ''id'' ?cols = Inr (remove1 ''id'' ?cols)"
    using 1 by (simp add: list_remove_def)
  have r2: "list_remove ''rn'' (remove1 ''id'' ?cols) = Inr ?fc"
    using 2 by (simp add: list_remove_def feature_columns_of_def)
  have gi: "getitem df ?fc = Inr sel"
    using sub by (simp add: getitem_def sel_def)
  have ne: "?fc \<noteq> []"
  proof
    assume "?fc = []"
    then have "get_dummies sel ?fc = Inl (ValueError ''No objects to concatenate'')"
      by (simp add: get_dummies_def)
    then have "extract_count_aggregations df = Inl (ValueError ''No objects to concatenate'')"
      unfolding extract_count_aggregations_def r1 r2 gi sum.case by simp
    with assms show False by simp
  qed
  define dum where "dum =
     \<lparr>columns = concat (map (\<lambda>c. map (Dummy c) (levels (rows sel) c)) ?fc),
      rows = map (\<lambda>r. concat (map (\<lambda>c. map (\<lambda>v. (Dummy c v, if map_of r c = Some v then 1 else 0))
                                            (levels (rows sel) c)) ?fc))
                 (rows sel)\<rparr>"
  have gd: "get_dummies sel ?fc = Inr dum"
    using ne by (simp add: get_dummies_def dum_def)
  have lev: "map (\<lambda>c. map (g c) (levels (rows sel) c)) ?fc = map (\<lambda>c. map (g c) (levels (rows df) c)) ?fc" for g :: "string \<Rightarrow> int \<Rightarrow> 'z"
    by (rule map_cong) (simp_all add: sel_def levels_reindex)
  have dcols: "columns dum = dummy_columns df"
    by (simp add: dum_def dummy_columns_def lev)
  have drows: "rows dum = map (\<lambda>r. concat (map (\<lambda>c. map (\<lambda>v. (Dummy c v, if map_of r c = Some v then 1 else 0))
                              (levels (rows df) c)) ?fc)) (rows df)"
  proof -
    have "concat (map (\<lambda>c. map (\<lambda>v. (Dummy c v, if map_of (reindex ?fc r) c = Some v then 1 else 0)) (levels (rows sel) c)) ?fc)
        = concat (map (\<lambda>c. map (\<lambda>v. (Dummy c v, if map_of r c = Some v then 1 else (0::int))) (levels (rows df) c)) ?fc)" for r
      by (rule arg_cong[where f=concat], rule map_cong) (simp_all add: sel_def levels_reindex map_of_reindex)
    then show ?thesis
      by (simp add: dum_def sel_def)
  qed
  define ohe where "ohe = \<lparr>columns = filter (\<lambda>c. c \<notin> set (map Col ?fc)) (map Col ?cols @ dummy_columns df),
                            rows = map (ohe_row df) (rows df)\<rparr>"
  have drop: "drop_columns (map Col ?fc) (concat_axis1 (plain df) dum) = Inr ohe"
    using sub by (auto simp: drop_columns_def concat_axis1_def plain_def dcols drows ohe_def ohe_row_def map2_same)
  have ex: "extract_count_aggregations df = groupby_sum id_col (dummy_columns df) ohe"
    unfolding extract_count_aggregations_def r1 r2 gi gd sum.case Let_def dcols drop
    by simp
  with assms have g: "groupby_sum id_col (dummy_columns df) ohe = Inr F" by simp
  then show 3: "''id'' \<notin> set ?fc"
    by (auto simp: groupby_sum_def ohe_def split: if_splits)
  from g show "columns F = id_col # dummy_columns df"
    by (auto simp: groupby_sum_def split: if_splits)
  from g show "rows F = map (\<lambda>k. (id_col, k) #
                 map (\<lambda>c. (c, sum_list (List.map_filter (\<lambda>r. map_of r c)
                          (filter (\<lambda>r. map_of r id_col = Some k) (map (ohe_row df) (rows df))))))
                     (dummy_columns df))
             (group_keys id_col (map (ohe_row df) (rows df)))"
    by (auto simp: groupby_sum_def ohe_def split: if_splits)
qed

lemma dummy_columns_pairs: "dummy_columns df = map (\<lambda>(c, v). Dummy c v) (dummy_pairs df)"
  by (simp add: dummy_columns_def dummy_pairs_def map_concat comp_def)

lemma set_dummy_pairs:
  "set (dummy_pairs df) = {(c, v). c \<in> set (feature_columns_of (columns df)) \<and> v \<in> set (levels (rows df) c)}"
  by (auto simp: dummy_pairs_def)

lemma map_of_dummy_row_Col:
  "map_of (concat (map (\<lambda>c. map (\<lambda>v. (Dummy c v, g c v)) (L c)) cols)) (Col k) = None"
  by (rule map_of_eq_None_iff[THEN iffD2]) auto

lemma map_of_ohe_row_id:
  "''id'' \<notin> set (feature_columns_of (columns df)) \<Longrightarrow> map_of (ohe_row df r) id_col = map_of r ''id''"
  by (auto simp: ohe_row_def map_of_filter_key map_add_def map_of_dummy_row_Col map_of_plain_Col
      split: option.splits)

lemma map_of_ohe_row_dummy:
  "map_of (ohe_row df r) (Dummy c v) =
     (if c \<in> set (feature_columns_of (columns df)) \<and> v \<in> set (levels (rows df) c)
      then Some (if map_of r c = Some v then 1 else 0) else None)"
  by (auto simp: ohe_row_def map_of_filter_key map_add_def map_of_dummy_row map_of_plain_Dummy
      split: option.splits)

lemma group_keys_ohe:
  assumes "''id'' \<notin> set (feature_columns_of (columns df))"
  shows "group_keys id_col (map (ohe_row df) rs) = group_keys ''id'' rs"
proof -
  have "List.map_filter (\<lambda>r. map_of r id_col) (map (ohe_row df) rs) = List.map_filter (\<lambda>r. map_of r ''id'') rs"
    by (induction rs) (auto simp: map_of_ohe_row_id[OF assms] split: option.splits)
  then show ?thesis by (simp add: group_keys_def)
qed

lemma sum_indicator_filter:
  "sum_list (map (\<lambda>r. if Q r then 1 else 0) (filter P rs)) = int (length (filter (\<lambda>r. P r \<and> Q r) rs))"
  by (induction rs) auto

lemma group_sum_ohe:
  assumes "''id'' \<notin> set (feature_columns_of (columns df))"
    and "c \<in> set (feature_columns_of (columns df))" and "v \<in> set (levels (rows df) c)"
  shows "sum_list (List.map_filter (\<lambda>r. map_of r (Dummy c v))
            (filter (\<lambda>r. map_of r id_col = Some k) (map (ohe_row df) rs)))
         = int (record_count rs k c v)"
proof -
  have "List.map_filter (\<lambda>r. map_of r (Dummy c v))
            (filter (\<lambda>r. map_of r id_col = Some k) (map (ohe_row df) rs))
      = map (\<lambda>r. if map_of r c = Some v then 1 else 0) (filter (\<lambda>r. map_of r ''id'' = Some k) rs)"
    using assms(2,3)
    by (induction rs) (auto simp: map_of_ohe_row_id[OF assms(1)] map_of_ohe_row_dummy)
  then show ?thesis
    by (simp add: sum_indicator_filter record_count_def)
qed

lemma extract_Inr:
  assumes "extract_count_aggregations df = Inr F"
  shows "F = \<lparr>columns = id_col # map (\<lambda>(c, v). Dummy c v) (dummy_pairs df),
              rows = map (count_row df) (entity_ids df)\<rparr>"
proof -
  note u = extract_unfold[OF assms]
  have "map (\<lambda>d. (d, sum_list (List.map_filter (\<lambda>r. map_of r d)
                          (filter (\<lambda>r. map_of r id_col = Some k) (map (ohe_row df) (rows df))))))
                     (dummy_columns df)
        = map (\<lambda>(c, v). (Dummy c v, int (record_count (rows df) k c v))) (dummy_pairs df)" for k
    unfolding dummy_columns_pairs map_map
    by (rule map_cong) (auto simp: set_dummy_pairs group_sum_ohe[OF u(3)])
  then have "rows F = map (count_row df) (entity_ids df)"
    by (simp add: u(5) group_keys_ohe[OF u(3)] count_row_def entity_ids_def)
  moreover have "columns F = id_col # map (\<lambda>(c, v). Dummy c v) (dummy_pairs df)"
    by (simp add: u(4) dummy_columns_pairs)
  ultimately show ?thesis by simp
qed

lemma preprocess_steps_Inr:
  assumes "preprocess_steps read path n sink steps acc tr = (Inr fs, tr')"
  shows "\<exists>dfs fs'. list_all2 (\<lambda>step df. read path step n = Inr df) steps dfs
            \<and> list_all2 (\<lambda>df f. extract_count_aggregations df = Inr f) dfs fs'
            \<and> fs = acc @ fs' \<and> tr' = tr @ trace_of path n sink steps fs'"
  using assms
proof (induction steps arbitrary: acc tr)
  case Nil
  then show ?case by (simp add: trace_of_def)
next
  case (Cons step steps)
  from Cons.prems obtain df f where r: "read path step n = Inr df"
    and e: "extract_count_aggregations df = Inr f"
    and rest: "preprocess_steps read path n sink steps (acc @ [f])
                 (tr @ [ReadParts path step n] @ save_events sink step f) = (Inr fs, tr')"
    by (auto split: sum.splits)
  from Cons.IH[OF rest] obtain dfs fs' where
    a: "list_all2 (\<lambda>step df. read path step n = Inr df) steps dfs"
    and b: "list_all2 (\<lambda>df f. extract_count_aggregations df = Inr f) dfs fs'"
    and c: "fs = (acc @ [f]) @ fs'"
    and d: "tr' = (tr @ [ReadParts path step n] @ save_events sink step f) @ trace_of path n sink steps fs'"
    by blast
  show ?case
    apply (rule exI[of _ "df # dfs"], rule exI[of _ "f # fs'"])
    using a b c d r e by (simp add: trace_of_def)
qed

lemma preprocess_steps_trace_independent:
  "fst (preprocess_steps read path n sink steps acc tr2) = fst (preprocess_steps read path n sink steps acc tr1)"
  by (induction steps arbitrary: acc tr1 tr2) (auto split: sum.splits)

lemma transform_data_Inr:
  assumes "transform_data read self path n m mode sink tr = (Inr T, self', tr')"
  shows "\<exists>steps fs concatenated dummy.
           py_range m n = Inr steps
         \<and> preprocess_steps read path n sink steps [] tr = (Inr fs, tr')
         \<and> pd_concat fs = Inr concatenated
         \<and> list_remove id_col (columns (fillna 0 concatenated)) = Inr dummy
         \<and> ((mode = ''fit_transform'' \<and> self' = self\<lparr>encoded_features := Some dummy\<rparr>
               \<and> getitem (fillna 0 concatenated) (id_col # dummy) = Inr T)
            \<or> (mode = ''transform'' \<and> self' = self
               \<and> (\<exists>enc. encoded_features self = Some enc
                     \<and> getitem (add_missing_columns enc dummy (fillna 0 concatenated)) (id_col # enc) = Inr T)))"
  using assms unfolding transform_data_def Let_def
  by (auto split: if_splits sum.splits prod.splits option.splits)

lemma foldl_append_new_id:
  assumes "fs \<noteq> []" and "\<forall>f\<in>set fs. \<exists>ds. columns f = id_col # ds \<and> id_col \<notin> set ds"
  shows "\<exists>ds. foldl append_new [] (map columns fs) = id_col # ds \<and> distinct (id_col # ds)
             \<and> set (id_col # ds) = \<Union> (set ` columns ` set fs)"
proof -
  from assms obtain f fs0 where fs: "fs = f # fs0" by (cases fs) auto
  with assms(2) obtain d0 where d0: "columns f = id_col # d0" by auto
  obtain ys where ys: "append_new [id_col] d0 = [id_col] @ ys" using append_new_prefix by blast
  obtain zs where zs: "foldl append_new ([id_col] @ ys) (map columns fs0) = ([id_col] @ ys) @ zs"
    using foldl_append_new_prefix by blast
  have eq: "foldl append_new [] (map columns fs) = id_col # (ys @ zs)"
    using fs d0 ys zs by simp
  have "distinct (foldl append_new [] (map columns fs))"
    by (rule distinct_foldl_append_new) simp
  moreover have "set (foldl append_new [] (map columns fs)) = \<Union> (set ` columns ` set fs)"
    by (simp add: set_foldl_append_new)
  ultimately show ?thesis using eq by (intro exI[of _ "ys @ zs"]) (simp del: foldl_Cons)
qed

lemma add_missing_columns_rows:
  "rows (add_missing_columns enc ds f) = map (add_zero enc ds) (rows f)"
  unfolding add_missing_columns_def add_zero_def
  by (induction enc arbitrary: f) (auto simp: setitem_def)

lemma map_of_add_zero:
  "map_of (add_zero enc ds r) c = (if c \<in> set enc \<and> c \<notin> set ds then Some 0 else map_of r c)"
  unfolding add_zero_def
  by (induction enc arbitrary: r) (auto simp: update_conv')

lemma transform_data_result:
  assumes "transform_data read self path n m mode sink tr = (Inr T, self', tr')"
  shows "\<exists>steps dfs fs ds enc.
           py_range m n = Inr steps \<and> steps \<noteq> []
         \<and> list_all2 (\<lambda>step df. read path step n = Inr df) steps dfs
         \<and> list_all2 (\<lambda>df f. extract_count_aggregations df = Inr f) dfs fs
         \<and> tr' = tr @ trace_of path n sink steps fs
         \<and> distinct (id_col # ds) \<and> set (id_col # ds) = \<Union> (set ` columns ` set fs)
         \<and> ((mode = ''fit_transform'' \<and> enc = ds \<and> self' = self\<lparr>encoded_features := Some ds\<rparr>)
            \<or> (mode = ''transform'' \<and> encoded_features self = Some enc \<and> self' = self))
         \<and> columns T = id_col # enc
         \<and> list_all2 (\<lambda>r t. \<forall>c. map_of t c = final_cell enc ds r c) (concat (map rows fs)) (rows T)"
proof -
  from transform_data_Inr[OF assms] obtain steps fs concatenated dummy where
    st: "py_range m n = Inr steps"
    and pp: "preprocess_steps read path n sink steps [] tr = (Inr fs, tr')"
    and pc: "pd_concat fs = Inr concatenated"
    and lr: "list_remove id_col (columns (fillna 0 concatenated)) = Inr dummy"
    and md: "(mode = ''fit_transform'' \<and> self' = self\<lparr>encoded_features := Some dummy\<rparr>
               \<and> getitem (fillna 0 concatenated) (id_col # dummy) = Inr T)
            \<or> (mode = ''transform'' \<and> self' = self
               \<and> (\<exists>enc. encoded_features self = Some enc
                     \<and> getitem (add_missing_columns enc dummy (fillna 0 concatenated)) (id_col # enc) = Inr T))"
    by blast
  from preprocess_steps_Inr[OF pp] obtain dfs where
    rd: "list_all2 (\<lambda>step df. read path step n = Inr df) steps dfs"
    and ex: "list_all2 (\<lambda>df f. extract_count_aggregations df = Inr f) dfs fs"
    and tr: "tr' = tr @ trace_of path n sink steps fs"
    by auto
  from pc have ne: "fs \<noteq> []" by (auto simp: pd_concat_def split: if_splits)
  with rd ex have sne: "steps \<noteq> []" by auto
  let ?cols = "foldl append_new [] (map columns fs)"
  from pc ne have cc: "columns concatenated = ?cols"
    and cr: "rows concatenated = map (reindex ?cols) (concat (map rows fs))"
    by (auto simp: pd_concat_def Let_def)
  have "\<forall>f\<in>set fs. \<exists>ds. columns f = id_col # ds \<and> id_col \<notin> set ds"
  proof
    fix f assume "f \<in> set fs"
    with ex obtain df where "extract_count_aggregations df = Inr f"
      by (auto simp: list_all2_conv_all_nth in_set_conv_nth)
    from extract_Inr[OF this] show "\<exists>ds. columns f = id_col # ds \<and> id_col \<notin> set ds"
      by auto
  qed
  from foldl_append_new_id[OF ne this] obtain ds where
    ds: "?cols = id_col # ds" "distinct (id_col # ds)" "set (id_col # ds) = \<Union> (set ` columns ` set fs)"
    by blast
  from lr cc ds(1) have dummy: "dummy = ds"
    by (simp add: list_remove_def fillna_def)
  let ?filled = "fillna 0 concatenated"
  have fc: "columns ?filled = id_col # ds" by (simp add: fillna_def cc ds(1))
  have fr: "rows ?filled = map (\<lambda>r. map (\<lambda>c. (c, case map_of r c of None \<Rightarrow> 0 | Some x \<Rightarrow> x)) (id_col # ds))
                (map (reindex (id_col # ds)) (concat (map rows fs)))"
    by (simp add: fillna_def cc cr ds(1))
  from md show ?thesis
  proof
    assume a: "mode = ''fit_transform'' \<and> self' = self\<lparr>encoded_features := Some dummy\<rparr>
               \<and> getitem (fillna 0 concatenated) (id_col # dummy) = Inr T"
    then have T: "columns T = id_col # ds" "rows T = map (reindex (id_col # ds)) (rows ?filled)"
      by (auto simp: getitem_def dummy fc split: if_splits)
    have "list_all2 (\<lambda>r t. \<forall>c. map_of t c = final_cell ds ds r c) (concat (map rows fs)) (rows T)"
      unfolding T fr list.rel_map
      by (rule list.rel_refl_strong) (auto simp: final_cell_def map_of_reindex map_of_tabulate split: option.splits)
    with a st sne rd ex tr ds T dummy show ?thesis by blast
  next
    assume a: "mode = ''transform'' \<and> self' = self
               \<and> (\<exists>enc. encoded_features self = Some enc
                     \<and> getitem (add_missing_columns enc dummy (fillna 0 concatenated)) (id_col # enc) = Inr T)"
    then obtain enc where enc: "encoded_features self = Some enc"
      and gi: "getitem (add_missing_columns enc ds ?filled) (id_col # enc) = Inr T"
      using dummy by auto
    then have T: "columns T = id_col # enc"
      "rows T = map (reindex (id_col # enc)) (map (add_zero enc ds) (rows ?filled))"
      by (auto simp: getitem_def add_missing_columns_rows split: if_splits)
    have "list_all2 (\<lambda>r t. \<forall>c. map_of t c = final_cell enc ds r c) (concat (map rows fs)) (rows T)"
      unfolding T fr list.rel_map
      by (rule list.rel_refl_strong)
        (auto simp: final_cell_def map_of_reindex map_of_tabulate map_of_add_zero split: option.splits)
    with a st sne rd ex tr ds T enc show ?thesis by blast
  qed
qed

lemma map_filter_all2:
  "list_all2 (\<lambda>x y. g x = Inr y) xs ys \<Longrightarrow>
     List.map_filter (\<lambda>x. case g x of Inl e \<Rightarrow> None | Inr y \<Rightarrow> Some y) xs = ys"
  by (induction xs ys rule: list_all2_induct) auto

lemma batches_eq:
  assumes "py_range m n = Inr steps" and "list_all2 (\<lambda>step df. read path step n = Inr df) steps dfs"
  shows "batches read path n m = dfs"
  using map_filter_all2[of "\<lambda>step. read path step n" steps dfs] assms by (simp add: batches_def)

lemma batch_features_eq:
  assumes "py_range m n = Inr steps" and "list_all2 (\<lambda>step df. read path step n = Inr df) steps dfs"
    and "list_all2 (\<lambda>df f. extract_count_aggregations df = Inr f) dfs fs"
  shows "batch_features read path n m = fs"
  using map_filter_all2[of extract_count_aggregations dfs fs] assms
  by (simp add: batch_features_def batches_eq[where read=read and path=path, OF assms(1,2)])

lemma list_all2_setD2:
  "list_all2 P xs ys \<Longrightarrow> y \<in> set ys \<Longrightarrow> \<exists>x\<in>set xs. P x y"
  by (induction rule: list_all2_induct) auto

lemma fitted_schema:
  assumes "fitted self"
  shows "\<exists>enc. encoded_features self = Some enc \<and> distinct (id_col # enc)"
proof -
  from assms obtain read self0 path n m sink tr T tr' where
    "transform_data read self0 path n m ''fit_transform'' sink tr = (Inr T, self, tr')"
    by (auto simp: fitted_def fit_transform_def)
  from transform_data_result[OF this] show ?thesis by auto
qed

lemma map_of_count_row_id: "map_of (count_row df k) id_col = Some k"
  by (simp add: count_row_def)

lemma transform_data_self:
  "fst (snd (transform_data read self path n m ''transform'' sink tr)) = self"
  unfolding transform_data_def Let_def
  by (auto split: sum.splits prod.splits option.splits)

lemma pd_concat_columns_id:
  assumes "list_all2 (\<lambda>df f. extract_count_aggregations df = Inr f) dfs fs" and "fs \<noteq> []"
  shows "\<exists>c ds. pd_concat fs = Inr c \<and> list_remove id_col (columns (fillna 0 c)) = Inr ds"
proof -
  have "\<forall>f\<in>set fs. \<exists>ds. columns f = id_col # ds \<and> id_col \<notin> set ds"
  proof
    fix f assume "f \<in> set fs"
    from list_all2_setD2[OF assms(1) this] obtain df where "extract_count_aggregations df = Inr f"
      by blast
    from extract_Inr[OF this] show "\<exists>ds. columns f = id_col # ds \<and> id_col \<notin> set ds"
      by auto
  qed
  from foldl_append_new_id[OF assms(2) this] obtain ds where
    "foldl append_new [] (map columns fs) = id_col # ds" by blast
  then show ?thesis using assms(2)
    by (simp add: pd_concat_def Let_def fillna_def list_remove_def)
qed

lemma preprocess_steps_Inr_iff:
  "(\<exists>fs tr'. preprocess_steps read path n sink steps acc tr = (Inr fs, tr'))
     \<longleftrightarrow> list_all (\<lambda>step. case read path step n of
                             Inl e \<Rightarrow> False
                           | Inr df \<Rightarrow> (case extract_count_aggregations df of
                                          Inl e \<Rightarrow> False | Inr f \<Rightarrow> True)) steps"
  by (induction steps arbitrary: acc tr) (auto split: sum.splits)

lemma extract_Inl:
  "extract_count_aggregations df = Inl e \<Longrightarrow> e = KeyError \<or> (\<exists>s. e = ValueError s)"
  unfolding extract_count_aggregations_def Let_def
  by (auto simp: list_remove_def getitem_def get_dummies_def drop_columns_def groupby_sum_def
      split: sum.splits if_splits)

lemma preprocess_steps_Inl:
  "preprocess_steps read path n sink steps acc tr = (Inl e, tr') \<Longrightarrow> (\<forall>s. e \<noteq> AssertionError s)"
  by (induction steps arbitrary: acc tr) (auto split: sum.splits dest: extract_Inl)

lemma unfitted_transform:
  assumes "encoded_features self = None"
  shows "\<exists>e. fst (transform_data read self path n m ''transform'' sink tr) = Inl e"
    and "fst (transform_data read self path n m ''transform'' sink tr) = Inl (AssertionError ''Transformer not fitted'')
          \<longleftrightarrow> all_batches_aggregated read path n m"
proof -
  show "\<exists>e. fst (transform_data read self path n m ''transform'' sink tr) = Inl e"
    using assms unfolding transform_data_def Let_def
    by (auto split: sum.splits prod.splits option.splits)
  show "fst (transform_data read self path n m ''transform'' sink tr) = Inl (AssertionError ''Transformer not fitted'')
          \<longleftrightarrow> all_batches_aggregated read path n m"
  proof (cases "py_range m n")
    case (Inl e)
    then show ?thesis
      by (auto simp: transform_data_def all_batches_aggregated_def py_range_def split: if_splits)
  next
    case (Inr steps)
    obtain a b where p: "preprocess_steps read path n sink steps [] tr = (a, b)" by force
    show ?thesis
    proof (cases a)
      case (Inl e)
      have "\<not> list_all (\<lambda>step. case read path step n of
                             Inl e \<Rightarrow> False
                           | Inr df \<Rightarrow> (case extract_count_aggregations df of
                                          Inl e \<Rightarrow> False | Inr f \<Rightarrow> True)) steps"
        using preprocess_steps_Inr_iff[of read path n sink steps "[]" tr] p Inl by simp
      moreover have "e \<noteq> AssertionError ''Transformer not fitted''"
        using preprocess_steps_Inl[of read path n sink steps "[]" tr] p Inl by auto
      ultimately show ?thesis using Inr p Inl
        by (simp add: transform_data_def all_batches_aggregated_def)
    next
      case (Inr fs)
      from preprocess_steps_Inr[OF p[unfolded Inr]] obtain dfs where
        rd: "list_all2 (\<lambda>step df. read path step n = Inr df) steps dfs"
        and ex: "list_all2 (\<lambda>df f. extract_count_aggregations df = Inr f) dfs fs"
        by auto
      have la: "list_all (\<lambda>step. case read path step n of
                             Inl e \<Rightarrow> False
                           | Inr df \<Rightarrow> (case extract_count_aggregations df of
                                          Inl e \<Rightarrow> False | Inr f \<Rightarrow> True)) steps"
        using preprocess_steps_Inr_iff[of read path n sink steps "[]" tr] p Inr by simp
      show ?thesis
      proof (cases "fs = []")
        case True
        with rd ex have "steps = []" by auto
        with True \<open>py_range m n = Inr steps\<close> p Inr show ?thesis
          by (simp add: transform_data_def all_batches_aggregated_def pd_concat_def)
      next
        case False
        with rd ex have "steps \<noteq> []" by auto
        moreover from pd_concat_columns_id[OF ex False] obtain c ds where
          "pd_concat fs = Inr c" "list_remove id_col (columns (fillna 0 c)) = Inr ds" by blast
        ultimately show ?thesis
          using \<open>py_range m n = Inr steps\<close> p Inr la assms
          by (simp add: transform_data_def all_batches_aggregated_def Let_def)
      qed
    qed
  qed
qed

lemma transform_data_trace:
  assumes "py_range m n = Inr steps" and "preprocess_steps read path n sink steps [] tr = (r, b)"
  shows "snd (snd (transform_data read self path n m ''transform'' sink tr)) = b"
  unfolding transform_data_def Let_def using assms
  by (simp split: sum.splits option.splits)

lemma py_range_cover:
  assumes "py_range m n = Inr steps" and "p < m"
  shows "\<exists>step\<in>set steps. step \<le> p \<and> p < step + n"
proof -
  from assms(1) have n: "0 < n" and steps: "steps = map (\<lambda>k. k * n) [0..<(m + n - 1) div n]"
    by (auto simp: py_range_def split: if_splits)
  have "m + n - 1 = (m - 1) + n" using assms(2) by simp
  moreover have "((m - 1) + n) div n = (m - 1) div n + 1" using n by simp
  ultimately have "(m + n - 1) div n = (m - 1) div n + 1" by (simp only:)
  moreover have "p div n \<le> (m - 1) div n" using assms(2) by (intro div_le_mono) simp
  ultimately have "p div n < (m + n - 1) div n" by simp
  moreover have "(p div n) * n \<le> p" by simp
  moreover have "p < (p div n) * n + n"
    using n mod_less_divisor[of n p] div_mult_mod_eq[of p n] by linarith
  ultimately have "p div n \<in> set [0..<(m + n - 1) div n] \<and> (p div n) * n \<le> p \<and> p < (p div n) * n + n"
    by simp
  then show ?thesis unfolding steps set_map by blast
qed

























section \<open>Auxiliary facts about the cross-validation\<close>

lemma length_slices: "length (slices xs sizes) = length sizes"
  by (induction xs sizes rule: slices.induct) auto

lemma concat_slices: "sum_list sizes = length xs \<Longrightarrow> concat (slices xs sizes) = xs"
proof (induction xs sizes rule: slices.induct)
  case (1 indices)
  then show ?case by simp
next
  case (2 indices fold_size sizes)
  then have "sum_list sizes = length (drop fold_size indices)" by simp
  with 2 show ?case by simp
qed

lemma sum_list_fold_sizes: "0 < k \<Longrightarrow> sum_list (fold_sizes k n) = n"
proof -
  assume k: "0 < k"
  have "sum_list (fold_sizes k n) = (\<Sum>i = 0..<k. n div k + (if i < n mod k then 1 else 0))"
    by (simp add: fold_sizes_def interv_sum_list_conv_sum_set_nat)
  also have "\<dots> = k * (n div k) + (\<Sum>i = 0..<k. if i < n mod k then 1 else 0)"
    by (simp add: sum.distrib)
  also have "(\<Sum>i = 0..<k. if i < n mod k then 1 else (0::nat)) = n mod k"
  proof -
    have "(\<Sum>i = 0..<k. if i < n mod k then 1 else (0::nat))
        = sum (\<lambda>i. 1) ({0..<k} \<inter> {i. i < n mod k}) + sum (\<lambda>i. 0) ({0..<k} \<inter> - {i. i < n mod k})"
      by (rule sum.If_cases) simp
    moreover have "{0..<k} \<inter> {i. i < n mod k} = {0..<n mod k}"
      using mod_less_divisor[OF k, of n] by auto
    ultimately show ?thesis by simp
  qed
  finally show ?thesis by simp
qed


lemma distinct_concat_map_sub:
  assumes "distinct (concat xss)" and "\<forall>t\<in>set xss. distinct (g t) \<and> set (g t) \<subseteq> set t"
  shows "distinct (concat (map g xss))"
  using assms
proof (induction xss)
  case Nil
  then show ?case by simp
next
  case (Cons x xss)
  have "set (concat (map g xss)) \<subseteq> set (concat xss)"
    using Cons.prems(2) by auto
  moreover have "set (g x) \<subseteq> set x" using Cons.prems(2) by simp
  moreover have "set x \<inter> set (concat xss) = {}" using Cons.prems(1) by auto
  ultimately have "set (g x) \<inter> set (concat (map g xss)) = {}" by blast
  with Cons show ?case by simp
qed

lemma kfold_split_Inr:
  assumes "kfold_split k perm n = Inr folds"
  shows "2 \<le> k" "k \<le> n"
    "folds = map (\<lambda>test. (filter (\<lambda>i. i \<notin> set test) [0..<n], filter (\<lambda>i. i \<in> set test) [0..<n]))
                 (slices perm (fold_sizes k n))"
  using assms by (auto simp: kfold_split_def split: if_splits)

lemma kfold_folds:
  assumes split: "kfold_split k perm n = Inr folds"
    and perm: "distinct perm" "set perm = {0..<n}"
  shows "length folds = k"
    and "distinct (concat (map snd folds))"
    and "set (concat (map snd folds)) = {0..<n}"
    and "\<forall>fd\<in>set folds. distinct (fst fd) \<and> distinct (snd fd) \<and> set (fst fd) = {0..<n} - set (snd fd)"
proof -
  note s = kfold_split_Inr[OF split]
  let ?sl = "slices perm (fold_sizes k n)"
  have len: "length perm = n" using perm by (metis card_atLeastLessThan diff_zero distinct_card)
  have cc: "concat ?sl = perm"
    using s(1) len by (intro concat_slices) (simp add: sum_list_fold_sizes)
  show "length folds = k" by (simp add: s(3) length_slices fold_sizes_def)
  have sub: "set t \<subseteq> {0..<n}" if "t \<in> set ?sl" for t
    using that cc perm(2) by (metis Sup_upper set_concat image_eqI)
  show 4: "\<forall>fd\<in>set folds. distinct (fst fd) \<and> distinct (snd fd) \<and> set (fst fd) = {0..<n} - set (snd fd)"
    unfolding s(3) by auto
  have snd_set: "set (snd fd) = set t" if "t \<in> set ?sl" "fd = (filter (\<lambda>i. i \<notin> set t) [0..<n], filter (\<lambda>i. i \<in> set t) [0..<n])" for fd t
    using sub[OF that(1)] that(2) by auto
  have "concat (map snd folds) = concat (map (\<lambda>t. filter (\<lambda>i. i \<in> set t) [0..<n]) ?sl)"
    by (simp add: s(3) comp_def)
  have set_eq: "set (filter (\<lambda>i. i \<in> set t) [0..<n]) = set t" if "t \<in> set ?sl" for t
    using sub[OF that] by auto
  show "set (concat (map snd folds)) = {0..<n}"
  proof -
    have "set (concat (map snd folds)) = (\<Union>t\<in>set ?sl. set (filter (\<lambda>i. i \<in> set t) [0..<n]))"
      by (simp add: s(3) comp_def)
    also have "\<dots> = (\<Union>t\<in>set ?sl. set t)" using set_eq by simp
    also have "\<dots> = set (concat ?sl)" by simp
    finally show ?thesis using cc perm(2) by simp
  qed
  have "distinct (concat (map (\<lambda>t. filter (\<lambda>i. i \<in> set t) [0..<n]) ?sl))"
    by (rule distinct_concat_map_sub) (auto simp: cc perm(1))
  then show "distinct (concat (map snd folds))"
    by (simp add: s(3) comp_def)
qed

lemma length_assign_positions: "length (assign_positions a idx vals) = length a"
proof -
  have "length (foldl (\<lambda>a (i, v). a[i := v]) a ps) = length a" for ps :: "(nat \<times> 'a) list"
    by (induction ps arbitrary: a) auto
  then show ?thesis by (simp add: assign_positions_def)
qed

lemma assign_positions_nth:
  assumes "distinct idx" and "\<forall>i\<in>set idx. i < length a"
  shows "assign_positions a idx (map g idx) ! e = (if e \<in> set idx then g e else a ! e)"
  using assms unfolding assign_positions_def
proof (induction idx arbitrary: a)
  case Nil
  then show ?case by simp
next
  case (Cons i idx)
  have "foldl (\<lambda>a (i, v). a[i := v]) (a[i := g i]) (zip idx (map g idx)) ! e
        = (if e \<in> set idx then g e else a[i := g i] ! e)"
    using Cons.prems by (intro Cons.IH) auto
  then show ?case using Cons.prems by (auto simp: nth_list_update)
qed

lemma fold_step_Inr:
  assumes "fold_step fit predict X k (train_idx, val_idx) (oof, tp, ms) = Inr (oof', tp', ms')"
  shows "\<exists>mdl. fit (take_positions X train_idx) (take_positions X val_idx) = Inr mdl
          \<and> (\<forall>i\<in>set (train_idx @ val_idx). i < length X)
          \<and> ms' = ms @ [mdl]
          \<and> oof' = assign_positions oof val_idx (map (\<lambda>i. predict mdl (X ! i)) val_idx)
          \<and> tp' = assign_positions tp train_idx
                     (map (\<lambda>i. tp ! i + predict mdl (X ! i) / of_int (int k - 1)) train_idx)"
  using assms unfolding fold_step_def Let_def
  by (auto simp: take_positions_def map2_same list_all_iff comp_def split: if_splits sum.splits)

lemma cv_loop_result:
  assumes "cv_loop fit predict X k folds (oof0, tp0, ms0) = Inr (oof, tp, ms)"
    and "length oof0 = length X" "length tp0 = length X"
    and "\<forall>fd\<in>set folds. distinct (fst fd) \<and> distinct (snd fd)"
    and "distinct (concat (map snd folds))"
  shows "\<exists>new. ms = ms0 @ new \<and> length new = length folds
           \<and> length oof = length X \<and> length tp = length X
           \<and> (\<forall>e<length X. tp ! e = tp0 ! e + sum_list (map (contribution predict X k e) (zip folds new)))
           \<and> (\<forall>e<length X. e \<notin> set (concat (map snd folds)) \<longrightarrow> oof ! e = oof0 ! e)
           \<and> (\<forall>(fd, mdl)\<in>set (zip folds new). \<forall>e\<in>set (snd fd). oof ! e = predict mdl (X ! e))"
  using assms
proof (induction folds arbitrary: oof0 tp0 ms0)
  case Nil
  then show ?case by simp
next
  case (Cons fd folds)
  obtain train_idx val_idx where fd: "fd = (train_idx, val_idx)" by (cases fd)
  from Cons.prems(1) obtain oof1 tp1 ms1 where
    step: "fold_step fit predict X k (train_idx, val_idx) (oof0, tp0, ms0) = Inr (oof1, tp1, ms1)"
    and rest: "cv_loop fit predict X k folds (oof1, tp1, ms1) = Inr (oof, tp, ms)"
    by (auto simp: fd split: sum.splits)
  from fold_step_Inr[OF step] obtain mdl where
    bounds: "\<forall>i\<in>set (train_idx @ val_idx). i < length X"
    and ms1: "ms1 = ms0 @ [mdl]"
    and oof1: "oof1 = assign_positions oof0 val_idx (map (\<lambda>i. predict mdl (X ! i)) val_idx)"
    and tp1: "tp1 = assign_positions tp0 train_idx
                     (map (\<lambda>i. tp0 ! i + predict mdl (X ! i) / of_int (int k - 1)) train_idx)"
    by blast
  have d: "distinct train_idx" "distinct val_idx" using Cons.prems(4) fd by auto
  have l1: "length oof1 = length X" "length tp1 = length X"
    using Cons.prems(2,3) by (simp_all add: oof1 tp1 length_assign_positions)
  have oof1n: "oof1 ! e = (if e \<in> set val_idx then predict mdl (X ! e) else oof0 ! e)" for e
    unfolding oof1 using d(2) bounds Cons.prems(2) by (intro assign_positions_nth) auto
  have tp1n: "tp1 ! e = (if e \<in> set train_idx then tp0 ! e + predict mdl (X ! e) / of_int (int k - 1) else tp0 ! e)" for e
    unfolding tp1 using d(1) bounds Cons.prems(3) by (intro assign_positions_nth) auto
  have "\<exists>new. ms = ms1 @ new \<and> length new = length folds
           \<and> length oof = length X \<and> length tp = length X
           \<and> (\<forall>e<length X. tp ! e = tp1 ! e + sum_list (map (contribution predict X k e) (zip folds new)))
           \<and> (\<forall>e<length X. e \<notin> set (concat (map snd folds)) \<longrightarrow> oof ! e = oof1 ! e)
           \<and> (\<forall>(fd, mdl)\<in>set (zip folds new). \<forall>e\<in>set (snd fd). oof ! e = predict mdl (X ! e))"
    using Cons.prems(4,5) by (intro Cons.IH[OF rest l1]) auto
  then obtain new where new: "ms = ms1 @ new" "length new = length folds"
    "length oof = length X" "length tp = length X"
    "\<forall>e<length X. tp ! e = tp1 ! e + sum_list (map (contribution predict X k e) (zip folds new))"
    "\<forall>e<length X. e \<notin> set (concat (map snd folds)) \<longrightarrow> oof ! e = oof1 ! e"
    "\<forall>(fd, mdl)\<in>set (zip folds new). \<forall>e\<in>set (snd fd). oof ! e = predict mdl (X ! e)"
    by blast
  have disj: "set val_idx \<inter> set (concat (map snd folds)) = {}"
    using Cons.prems(5) fd by auto
  show ?case
  proof (intro exI[of _ "mdl # new"] conjI)
    show "ms = ms0 @ mdl # new" using new(1) ms1 by simp
    show "length (mdl # new) = length (fd # folds)" using new(2) by simp
    show "length oof = length X" "length tp = length X" by fact+
    show "\<forall>e<length X. tp ! e = tp0 ! e + sum_list (map (contribution predict X k e) (zip (fd # folds) (mdl # new)))"
      using new(5) tp1n by (auto simp: contribution_def fd)
    show "\<forall>e<length X. e \<notin> set (concat (map snd (fd # folds))) \<longrightarrow> oof ! e = oof0 ! e"
      using new(6) oof1n by (auto simp: fd)
    show "\<forall>(fd, mdl)\<in>set (zip (fd # folds) (mdl # new)). \<forall>e\<in>set (snd fd). oof ! e = predict mdl (X ! e)"
    proof -
      have "oof ! e = predict mdl (X ! e)" if "e \<in> set val_idx" for e
      proof -
        from that bounds have "e < length X" by auto
        moreover from that disj have "e \<notin> set (concat (map snd folds))" by blast
        ultimately show ?thesis using new(6) oof1n[of e] that by simp
      qed
      with new(7) show ?thesis by (auto simp: fd)
    qed
  qed
qed

lemma count_list_distinct: "distinct xs \<Longrightarrow> count_list xs e = (if e \<in> set xs then 1 else 0)"
  by (induction xs) auto

lemma sum_count_list_folds:
  assumes "\<forall>fd\<in>set folds. distinct (snd fd)"
  shows "(\<Sum>fd\<leftarrow>folds. count_list (snd fd) e) = length (filter (\<lambda>fd. e \<in> set (snd fd)) folds)"
  using assms by (induction folds) (auto simp: count_list_distinct)

lemma score_foldl:
  assumes "length s0 = length X" and "j < length X"
  shows "foldl (\<lambda>score model. map2 (+) score (map (\<lambda>x. predict model x / c) X)) s0 ms ! j
           = s0 ! j + (\<Sum>mdl\<leftarrow>ms. predict mdl (X ! j) / c)
         \<and> length (foldl (\<lambda>score model. map2 (+) score (map (\<lambda>x. predict model x / c) X)) s0 ms) = length X"
  using assms by (induction ms arbitrary: s0) (auto simp: algebra_simps)

lemma sum_list_divide:
  fixes f :: "'a \<Rightarrow> real"
  shows "(\<Sum>x\<leftarrow>xs. f x / c) = (\<Sum>x\<leftarrow>xs. f x) / c"
  by (induction xs) (auto simp: add_divide_distrib)


section \<open>Properties of the CountAggregator\<close>

subsection \<open>Runs on the toy dataset\<close>

lemma toy_fit_transform:
  "fit_transform toy_read init ''train'' 1 2 None [] =
     (Inr toy_train_features, toy_fitted, [ReadParts ''train'' 0 1, ReadParts ''train'' 1 1])"
  by code_simp

lemma toy_transform:
  "transform toy_read toy_fitted ''test'' 1 2 None [] =
     (Inr toy_test_features, toy_fitted, [ReadParts ''test'' 0 1, ReadParts ''test'' 1 1])"
  by code_simp

lemma toy_fitted_is_fitted: "fitted toy_fitted"
  unfolding fitted_def using toy_fit_transform by blast

subsection \<open>Fixed columns in transform mode\<close>

text \<open>
  Claim C1. For every aggregator that holds a schema and every input, the table that
  \<^verbatim>\<open>transform\<close> returns has exactly the columns \<^verbatim>\<open>id\<close> followed by the schema, in
  the schema's order, and the schema is left as it was. No row of the table holds a cell
  outside these columns, so a category column seen in this call and absent from the
  schema is dropped; and a schema column that no batch of this call produced is zero in
  every row. (A call that returns implies that the aggregator holds a schema.)
\<close>

theorem transform_columns_are_schema:
  assumes "transform read self path n m sink tr = (Inr T, self', tr')"
  shows "\<exists>enc. encoded_features self = Some enc \<and> encoded_features self' = Some enc
           \<and> columns T = id_col # enc
           \<and> (\<forall>t\<in>set (rows T). \<forall>c. c \<notin> set (id_col # enc) \<longrightarrow> map_of t c = None)
           \<and> (\<forall>t\<in>set (rows T). \<forall>c\<in>set enc.
                 c \<notin> \<Union> (set ` columns ` set (batch_features read path n m))
                 \<longrightarrow> map_of t c = Some 0)"
proof -
  from transform_data_result[OF assms[unfolded transform_def]] obtain steps dfs fs ds enc where
    st: "py_range m n = Inr steps"
    and rd: "list_all2 (\<lambda>step df. read path step n = Inr df) steps dfs"
    and ex: "list_all2 (\<lambda>df f. extract_count_aggregations df = Inr f) dfs fs"
    and ds: "set (id_col # ds) = \<Union> (set ` columns ` set fs)"
    and enc: "encoded_features self = Some enc" "self' = self"
    and T: "columns T = id_col # enc"
    and cells: "list_all2 (\<lambda>r t. \<forall>c. map_of t c = final_cell enc ds r c)
                  (concat (map rows fs)) (rows T)"
    by auto
  have bf: "batch_features read path n m = fs"
    by (rule batch_features_eq[where read=read and path=path, OF st rd ex])
  have "map_of t c = None" if "t \<in> set (rows T)" "c \<notin> set (id_col # enc)" for t c
    using list_all2_setD2[OF cells that(1)] that(2) by (auto simp: final_cell_def)
  moreover have "map_of t c = Some 0"
    if "t \<in> set (rows T)" "c \<in> set enc" "c \<notin> \<Union> (set ` columns ` set fs)" for t c
  proof -
    from that(3) ds have "c \<notin> set ds" by auto
    with list_all2_setD2[OF cells that(1)] that(2) show ?thesis by (auto simp: final_cell_def)
  qed
  ultimately show ?thesis using enc T bf by auto
qed

theorem transform_columns_are_schema_witness:
  "transform toy_read toy_fitted ''test'' 1 2 None [] =
     (Inr toy_test_features, toy_fitted, [ReadParts ''test'' 0 1, ReadParts ''test'' 1 1])
   \<and> Dummy ''a'' 2 \<in> \<Union> (set ` columns ` set (batch_features toy_read ''test'' 1 2))
   \<and> Dummy ''b'' 0 \<notin> \<Union> (set ` columns ` set (batch_features toy_read ''test'' 1 2))
   \<and> (\<exists>enc. encoded_features toy_fitted = Some enc \<and> encoded_features toy_fitted = Some enc
           \<and> columns toy_test_features = id_col # enc
           \<and> (\<forall>t\<in>set (rows toy_test_features). \<forall>c. c \<notin> set (id_col # enc) \<longrightarrow> map_of t c = None)
           \<and> (\<forall>t\<in>set (rows toy_test_features). \<forall>c\<in>set enc.
                 c \<notin> \<Union> (set ` columns ` set (batch_features toy_read ''test'' 1 2))
                 \<longrightarrow> map_of t c = Some 0))"
proof -
  have seen: "Dummy ''a'' 2 \<in> \<Union> (set ` columns ` set (batch_features toy_read ''test'' 1 2))"
    by code_simp
  have unseen: "Dummy ''b'' 0 \<notin> \<Union> (set ` columns ` set (batch_features toy_read ''test'' 1 2))"
    by code_simp
  show ?thesis
    using toy_transform seen unseen transform_columns_are_schema[OF toy_transform] by blast
qed

subsection \<open>Counts\<close>



subsection \<open>One row per entity\<close>

text \<open>
  Claim C3. Let \<^verbatim>\<open>fit_transform\<close>, or \<^verbatim>\<open>transform\<close> on a fitted aggregator, return a
  table, and let no entity id occur in two batches of the call (the ids of the batches,
  listed batch after batch, do not repeat). Then the id column of the table lists every
  id of the batches exactly once: no id is repeated and none is left out.
\<close>

theorem ids_exactly_once:
  assumes call: "fit_transform read self path n m sink tr = (Inr T, self', tr')
                 \<or> (fitted self \<and> transform read self path n m sink tr = (Inr T, self', tr'))"
    and single: "distinct (concat (map entity_ids (batches read path n m)))"
  shows "\<exists>ids. map (\<lambda>t. map_of t id_col) (rows T) = map Some ids \<and> distinct ids
           \<and> set ids = (\<Union>df\<in>set (batches read path n m). set (entity_ids df))"
proof -
  from call obtain mode where
    td: "transform_data read self path n m mode sink tr = (Inr T, self', tr')"
    and fm: "mode = ''transform'' \<longrightarrow> fitted self"
    by (auto simp: fit_transform_def transform_def)
  from transform_data_result[OF td] obtain steps dfs fs ds enc where
    st: "py_range m n = Inr steps"
    and rd: "list_all2 (\<lambda>step df. read path step n = Inr df) steps dfs"
    and ex: "list_all2 (\<lambda>df f. extract_count_aggregations df = Inr f) dfs fs"
    and ds: "distinct (id_col # ds)"
    and md: "(mode = ''fit_transform'' \<and> enc = ds \<and> self' = self\<lparr>encoded_features := Some ds\<rparr>)
            \<or> (mode = ''transform'' \<and> encoded_features self = Some enc \<and> self' = self)"
    and cells: "list_all2 (\<lambda>r t. \<forall>c. map_of t c = final_cell enc ds r c)
                  (concat (map rows fs)) (rows T)"
    by blast
  have bs: "batches read path n m = dfs"
    by (rule batches_eq[where read=read and path=path, OF st rd])
  have idenc: "id_col \<notin> set enc"
    using md ds fm fitted_schema[of self] by auto
  let ?ids = "concat (map entity_ids dfs)"
  have "list_all2 (\<lambda>r k. map_of r id_col = Some k) (concat (map rows fs)) ?ids"
    using ex
  proof (induction dfs fs rule: list_all2_induct)
    case Nil
    then show ?case by simp
  next
    case (Cons df dfs f fs)
    have "rows f = map (count_row df) (entity_ids df)"
      using extract_Inr[OF Cons.hyps(1)] by simp
    then have "list_all2 (\<lambda>r k. map_of r id_col = Some k) (rows f) (entity_ids df)"
      by (simp add: list.rel_map map_of_count_row_id list.rel_refl)
    with Cons.IH show ?case by (simp add: list_all2_appendI)
  qed
  with cells have "\<forall>j<length (rows T). map_of (rows T ! j) id_col = Some (?ids ! j)"
    and len: "length (rows T) = length ?ids"
    using idenc by (auto simp: list_all2_conv_all_nth final_cell_def)
  then have 1: "map (\<lambda>t. map_of t id_col) (rows T) = map Some ?ids"
    by (intro nth_equalityI) auto
  have 2: "distinct ?ids" using single bs by simp
  have 3: "set ?ids = (\<Union>df\<in>set dfs. set (entity_ids df))" by auto
  show ?thesis using 1 2 3 bs by blast
qed

theorem ids_exactly_once_witness:
  "fitted toy_fitted
   \<and> transform toy_read toy_fitted ''test'' 1 2 None [] =
       (Inr toy_test_features, toy_fitted, [ReadParts ''test'' 0 1, ReadParts ''test'' 1 1])
   \<and> distinct (concat (map entity_ids (batches toy_read ''test'' 1 2)))
   \<and> (\<exists>ids. map (\<lambda>t. map_of t id_col) (rows toy_test_features) = map Some ids \<and> distinct ids
           \<and> set ids = (\<Union>df\<in>set (batches toy_read ''test'' 1 2). set (entity_ids df)))"
proof -
  have single: "distinct (concat (map entity_ids (batches toy_read ''test'' 1 2)))"
    by code_simp
  show ?thesis
    using toy_fitted_is_fitted toy_transform single
      ids_exactly_once[OF disjI2[OF conjI[OF toy_fitted_is_fitted toy_transform]] single]
    by blast
qed

subsection \<open>Transform leaves the schema alone\<close>

text \<open>
  Claim C4. \<^verbatim>\<open>transform\<close> never changes the aggregator, whatever it returns or raises;
  so the schema that a fit established stays the same across every later call of
  \<^verbatim>\<open>transform\<close>. Called a second time on the aggregator and the trace that the first
  call left, with the same reader and arguments, it gives the same result as the first
  time.
\<close>

theorem transform_twice_same_output:
  "(let (res1, self1, tr1) = transform read self path n m sink tr;
        (res2, self2, tr2) = transform read self1 path n m sink tr1
    in self1 = self \<and> self2 = self \<and> res2 = res1)"
proof -
  have same: "fst (snd (transform_data read s path n m ''transform'' sink t)) = s" for s t
    by (rule transform_data_self)
  have indep: "fst (transform_data read s path n m ''transform'' sink t2)
             = fst (transform_data read s path n m ''transform'' sink t1)" for s t1 t2
  proof (cases "py_range m n")
    case (Inl e)
    then show ?thesis by (simp add: transform_data_def)
  next
    case (Inr steps)
    obtain a1 b1 where p1: "preprocess_steps read path n sink steps [] t1 = (a1, b1)" by force
    obtain a2 b2 where p2: "preprocess_steps read path n sink steps [] t2 = (a2, b2)" by force
    have "a2 = a1"
      using preprocess_steps_trace_independent[of read path n sink steps "[]" t2 t1] p1 p2
      by simp
    then show ?thesis
      unfolding transform_data_def Let_def Inr
      by (simp add: p1 p2 split: sum.splits option.splits)
  qed
  show ?thesis
    using same indep unfolding transform_def
    by (auto simp: Let_def split: prod.splits) (metis fst_conv snd_conv)+
qed

subsection \<open>Transform before fit\<close>




subsection \<open>When the not-fitted assertion fails\<close>

text \<open>
  Claim C10. Let \<^verbatim>\<open>transform\<close> be called on an aggregator without a schema. Whatever
  the outcome, the aggregator is unchanged and still has no schema. If the outcome is
  the failed assertion \<^verbatim>\<open>"Transformer not fitted"\<close>, then the loop has run to its
  end: its steps cover every partition below \<^verbatim>\<open>num_parts_total\<close>, every step was read
  and aggregated, and the trace of the call holds, step after step, the read and (when a
  sink path is given) the written artifact of the aggregated batch.
\<close>

theorem not_fitted_raised_after_all_batches:
  assumes "encoded_features self = None"
    and "transform read self path n m sink tr = (res, self', tr')"
  shows "self' = self \<and> encoded_features self' = None
       \<and> (res = Inl (AssertionError ''Transformer not fitted'') \<longrightarrow>
            (\<exists>steps dfs fs. py_range m n = Inr steps
               \<and> (\<forall>p<m. \<exists>step\<in>set steps. step \<le> p \<and> p < step + n)
               \<and> list_all2 (\<lambda>step df. read path step n = Inr df) steps dfs
               \<and> list_all2 (\<lambda>df f. extract_count_aggregations df = Inr f) dfs fs
               \<and> tr' = tr @ trace_of path n sink steps fs))"
proof -
  have s: "self' = self"
    using transform_data_self[of read self path n m sink tr] assms(2) by (simp add: transform_def)
  have "\<exists>steps dfs fs. py_range m n = Inr steps
               \<and> (\<forall>p<m. \<exists>step\<in>set steps. step \<le> p \<and> p < step + n)
               \<and> list_all2 (\<lambda>step df. read path step n = Inr df) steps dfs
               \<and> list_all2 (\<lambda>df f. extract_count_aggregations df = Inr f) dfs fs
               \<and> tr' = tr @ trace_of path n sink steps fs"
    if nf: "res = Inl (AssertionError ''Transformer not fitted'')"
  proof -
    from assms(2) nf have td: "transform_data read self path n m ''transform'' sink tr
          = (Inl (AssertionError ''Transformer not fitted''), self', tr')"
      by (simp add: transform_def)
    then have "all_batches_aggregated read path n m"
      using unfitted_transform(2)[OF assms(1), of read path n m sink tr] by simp
    then obtain steps where st: "py_range m n = Inr steps"
      and la: "list_all (\<lambda>step. case read path step n of
                             Inl e \<Rightarrow> False
                           | Inr df \<Rightarrow> (case extract_count_aggregations df of
                                          Inl e \<Rightarrow> False | Inr f \<Rightarrow> True)) steps"
      by (auto simp: all_batches_aggregated_def split: sum.splits)
    from la obtain fs b where p: "preprocess_steps read path n sink steps [] tr = (Inr fs, b)"
      using preprocess_steps_Inr_iff[of read path n sink steps "[]" tr] by blast
    have "snd (snd (transform_data read self path n m ''transform'' sink tr)) = b"
      using st p by (rule transform_data_trace)
    with td have b: "b = tr'" by simp
    from preprocess_steps_Inr[OF p[unfolded b]] obtain dfs where
      "list_all2 (\<lambda>step df. read path step n = Inr df) steps dfs"
      "list_all2 (\<lambda>df f. extract_count_aggregations df = Inr f) dfs fs"
      "tr' = tr @ trace_of path n sink steps fs"
      by auto
    with st py_range_cover[OF st] show ?thesis by blast
  qed
  with s assms(1) show ?thesis by blast
qed

theorem not_fitted_raised_after_all_batches_witness:
  "encoded_features init = None
   \<and> transform toy_read init ''train'' 1 2 (Some ''out'') [] =
       (Inl (AssertionError ''Transformer not fitted''), init,
        [ReadParts ''train'' 0 1, ToParquet ''out'' 0 (batch_features toy_read ''train'' 1 2 ! 0),
         ReadParts ''train'' 1 1, ToParquet ''out'' 1 (batch_features toy_read ''train'' 1 2 ! 1)])
   \<and> (\<exists>steps dfs fs. py_range 2 1 = Inr steps
               \<and> (\<forall>p<2. \<exists>step\<in>set steps. step \<le> p \<and> p < step + 1)
               \<and> list_all2 (\<lambda>step df. toy_read ''train'' step 1 = Inr df) steps dfs
               \<and> list_all2 (\<lambda>df f. extract_count_aggregations df = Inr f) dfs fs
               \<and> [ReadParts ''train'' 0 1, ToParquet ''out'' 0 (batch_features toy_read ''train'' 1 2 ! 0),
                   ReadParts ''train'' 1 1, ToParquet ''out'' 1 (batch_features toy_read ''train'' 1 2 ! 1)]
                 = [] @ trace_of ''train'' 1 (Some ''out'') steps fs)"
proof -
  have h: "encoded_features init = None" by (simp add: init_def)
  have run: "transform toy_read init ''train'' 1 2 (Some ''out'') [] =
       (Inl (AssertionError ''Transformer not fitted''), init,
        [ReadParts ''train'' 0 1, ToParquet ''out'' 0 (batch_features toy_read ''train'' 1 2 ! 0),
         ReadParts ''train'' 1 1, ToParquet ''out'' 1 (batch_features toy_read ''train'' 1 2 ! 1)])"
    by code_simp
  show ?thesis
    using h run not_fitted_raised_after_all_batches[OF h run] by blast
qed

subsection \<open>The toy scenario\<close>




section \<open>Properties of the cross-validation and of the scoring\<close>

subsection \<open>Runs on the toy data\<close>


lemma toy_permutation: "distinct [1, 2, 0::nat]" "set [1, 2, 0] = {0..<length [0, 1, 2::nat]}"
  by code_simp+

lemma toy_cross_validate:
  "cross_validate toy_fit toy_predict [0, 1, 2] 3 [1, 2, 0] =
     Inr ([3 / 10, 21 / 100, 3 / 25], [3 / 20, 21 / 100, 27 / 100], [2, 1, 3])"
  by code_simp

subsection \<open>Validation folds\<close>



subsection \<open>Training predictions\<close>

text \<open>
  Claim C7. When the training cell completes, for every entity the value of
  \<^verbatim>\<open>train_preds\<close> is the sum, over the folds paired with their models, of the model's
  predicted probability for the entity divided by \<open>k - 1\<close>, taken over the folds whose
  training indices hold the entity. There are \<open>k - 1\<close> such folds; the fold that holds
  the entity out for validation does not have it among its training indices and adds
  nothing.
\<close>

theorem train_preds_sum_of_training_folds:
  assumes run: "cross_validate fit predict X k perm = Inr (oof, train_preds, models)"
    and perm: "distinct perm" "set perm = {0..<length X}"
    and e: "e < length X"
  shows "\<exists>folds. kfold_split k perm (length X) = Inr folds
           \<and> length folds = k \<and> length models = k
           \<and> train_preds ! e =
               (\<Sum>(fd, mdl)\<leftarrow>zip folds models.
                  if e \<in> set (fst fd) then predict mdl (X ! e) / of_int (int k - 1) else 0)
           \<and> length (filter (\<lambda>fd. e \<in> set (fst fd)) folds) = k - 1
           \<and> (\<forall>fd\<in>set folds. e \<in> set (snd fd) \<longrightarrow> e \<notin> set (fst fd))"
proof -
  from run obtain folds where
    split: "kfold_split k perm (length X) = Inr folds"
    and loop: "cv_loop fit predict X k folds
                 (replicate (length X) 0, replicate (length X) 0, []) = Inr (oof, train_preds, models)"
    by (auto simp: cross_validate_def split: sum.splits)
  note f = kfold_folds[OF split perm]
  from cv_loop_result[OF loop] f(2,4) obtain new where
    new: "models = [] @ new" "length new = length folds"
    "\<forall>e<length X. train_preds ! e = replicate (length X) 0 ! e
        + sum_list (map (contribution predict X k e) (zip folds new))"
    by auto
  have tp: "train_preds ! e =
               (\<Sum>(fd, mdl)\<leftarrow>zip folds models.
                  if e \<in> set (fst fd) then predict mdl (X ! e) / of_int (int k - 1) else 0)"
    using new e by (simp add: contribution_def)
  have compl: "e \<in> set (fst fd) \<longleftrightarrow> e \<notin> set (snd fd)" if "fd \<in> set folds" for fd
    using f(4) that e by auto
  have "(\<Sum>fd\<leftarrow>folds. count_list (snd fd) e) = 1"
  proof -
    have "(\<Sum>fd\<leftarrow>folds. count_list (snd fd) e) = count_list (concat (map snd folds)) e"
      by (simp add: count_list_concat comp_def)
    also have "\<dots> = 1" using f(2,3) e by (simp add: count_list_distinct)
    finally show ?thesis .
  qed
  then have one: "length (filter (\<lambda>fd. e \<in> set (snd fd)) folds) = 1"
    using sum_count_list_folds[of folds e] f(4) by simp
  have "filter (\<lambda>fd. e \<in> set (fst fd)) folds = filter (\<lambda>fd. \<not> e \<in> set (snd fd)) folds"
    by (rule filter_cong) (simp_all add: compl)
  then have "length (filter (\<lambda>fd. e \<in> set (fst fd)) folds) + 1 = length folds"
    using sum_length_filter_compl[of "\<lambda>fd. e \<in> set (snd fd)" folds] one by simp
  then have cnt: "length (filter (\<lambda>fd. e \<in> set (fst fd)) folds) = k - 1"
    using f(1) by simp
  show ?thesis using split f(1) new(1,2) tp cnt compl by auto
qed

theorem train_preds_sum_of_training_folds_witness:
  "cross_validate toy_fit toy_predict [0, 1, 2] 3 [1, 2, 0] =
     Inr ([3 / 10, 21 / 100, 3 / 25], [3 / 20, 21 / 100, 27 / 100], [2, 1, 3])
   \<and> (\<exists>folds. kfold_split 3 [1, 2, 0] (length [0, 1, 2::nat]) = Inr folds
           \<and> length folds = 3 \<and> length [2, 1, 3::nat] = 3
           \<and> [3 / 20, 21 / 100, 27 / 100] ! 0 =
               (\<Sum>(fd, mdl)\<leftarrow>zip folds [2, 1, 3].
                  if 0 \<in> set (fst fd) then toy_predict mdl ([0, 1, 2] ! 0) / of_int (int 3 - 1) else 0)
           \<and> length (filter (\<lambda>fd. 0 \<in> set (fst fd)) folds) = 3 - 1
           \<and> (\<forall>fd\<in>set folds. 0 \<in> set (snd fd) \<longrightarrow> 0 \<notin> set (fst fd)))"
proof -
  have e: "0 < length [0, 1, 2::nat]" by simp
  show ?thesis
    by (rule conjI[OF toy_cross_validate
          train_preds_sum_of_training_folds[OF toy_cross_validate toy_permutation e]])
qed

subsection \<open>Scores\<close>

text \<open>
  Claim C8. For every row of the scored table, the score is the sum of the predicted
  probabilities of all models for that row, divided by the number of models: the
  unweighted mean. The score is a function of the models and the rows, so two runs on
  the same inputs give the same scores.
\<close>

theorem score_is_mean_of_models:
  assumes "models \<noteq> []" and "j < length test_data"
  shows "length (score_models predict models test_data) = length test_data
       \<and> score_models predict models test_data ! j =
           (\<Sum>mdl\<leftarrow>models. predict mdl (test_data ! j)) / of_nat (length models)"
  using score_foldl[of "replicate (length test_data) 0" test_data j predict "of_nat (length models)" models]
    assms(2)
  by (simp add: score_models_def sum_list_divide)

theorem score_is_mean_of_models_witness:
  "[2, 1, 3::nat] \<noteq> [] \<and> 1 < length [5, 7::nat]
   \<and> score_models toy_predict [2, 1, 3] [5, 7] = [1 / 4, 27 / 100]
   \<and> length (score_models toy_predict [2, 1, 3] [5, 7]) = length [5, 7::nat]
   \<and> score_models toy_predict [2, 1, 3] [5, 7] ! 1 =
       (\<Sum>mdl\<leftarrow>[2, 1, 3]. toy_predict mdl ([5, 7] ! 1)) / of_nat (length [2, 1, 3::nat])"
proof -
  have m: "[2, 1, 3::nat] \<noteq> []" and j: "1 < length [5, 7::nat]" by simp_all
  have v: "score_models toy_predict [2, 1, 3] [5, 7] = [1 / 4, 27 / 100]" by code_simp
  note th = score_is_mean_of_models[OF m j, of toy_predict]
  show ?thesis
    by (intro conjI m j v th[THEN conjunct1] th[THEN conjunct2])
qed

end
